theory Spec2Isabelle
  imports Complex_Main "HOL-Library.Word" "HOL-Library.Monad_Syntax" "HOL-Library.Multiset"
begin

section \<open>The command-line driver: the v-cycle check of \<open>main\<close>\<close>

text \<open>
  \<open>kahypar_timelimit.cc\<close>: after the command line has been read into the context and
  \<open>sanityCheck\<close> has run, \<open>main\<close> prints the banner (unless quiet), rejects v-cycles in
  recursive-bisection mode with \<open>std::exit(-1)\<close>, and only then seeds the random generator,
  reads the hypergraph and enters the partitioning loop. The model keeps the fields of the
  context that \<open>main\<close> reads and records what \<open>main\<close> does as a list of events together
  with the exit status. \<open>global_search_iterations\<close> is a \<open>uint32_t\<close> (option \<open>vcycles\<close>).
\<close>

datatype Mode = recursive_bisection | direct_kway

record PartitioningParameters =
  global_search_iterations :: "32 word"
  mode :: Mode
  quiet_mode :: bool
  sp_process_output :: bool

datatype main_event =
    PrintBanner
  | PrintError string
  | SetSeed
  | CreateHypergraphFromFile
  | PartitionLoop
  | PrintPartitioningResults
  | WritePartitionFile
  | Serialize

definition main :: "PartitioningParameters \<Rightarrow> main_event list \<times> int" where
  "main context =
     (let banner = (if \<not> quiet_mode context then [PrintBanner] else []) in
      if global_search_iterations context \<noteq> 0 \<and> mode context = recursive_bisection
      then (banner @ [PrintError ''V-Cycles are not supported in recursive bisection mode.''], - 1)
      else (banner @ [SetSeed, CreateHypergraphFromFile, PartitionLoop]
              @ (if \<not> quiet_mode context then [PrintPartitioningResults] else [])
              @ [WritePartitionFile]
              @ (if sp_process_output context then [Serialize] else []), 0))"

text \<open>The events that touch the hypergraph.\<close>

definition partitioning_work :: "main_event set" where
  "partitioning_work = {SetSeed, CreateHypergraphFromFile, PartitionLoop, WritePartitionFile}"

section \<open>Two-way flow refinement\<close>

subsection \<open>\<open>FlowExecutionPolicy::executeFlow\<close>\<close>

text \<open>
  The policy holds a stack of node counts; flow refinement runs when the current number of
  nodes has reached the last entry, which is then popped.
\<close>

definition executeFlow :: "nat \<Rightarrow> nat list \<Rightarrow> bool \<times> nat list" where
  "executeFlow currentNodes flowExecutionLevels =
     (if length flowExecutionLevels = 0 then (False, flowExecutionLevels)
      else if last flowExecutionLevels \<le> currentNodes
      then (True, butlast flowExecutionLevels)
      else (False, flowExecutionLevels))"

subsection \<open>The part of the hypergraph and of the context that the refiner uses\<close>

text \<open>
  \<open>PartitionID\<close> is a signed integer, \<open>-1\<close> meaning not assigned. The hypergraph store
  itself is not among the sources; of \<open>changeNodePart(v, from, to)\<close> the model keeps the
  update of \<open>part(v)\<close>, and fails when \<open>v\<close> is out of range or not in \<open>from\<close>.
  The imbalance and epsilon are doubles that the refiner only compares; the model uses
  reals for them.
\<close>

record Hypergraph =
  partID :: "int list"
  currentNumNodes :: nat
  initialNumNodes :: nat

definition changeNodePart :: "Hypergraph \<Rightarrow> nat \<Rightarrow> int \<Rightarrow> int \<Rightarrow> Hypergraph option" where
  "changeNodePart h hn from to =
     (if hn < length (partID h) \<and> partID h ! hn = from
      then Some (h\<lparr>partID := (partID h)[hn := to]\<rparr>) else None)"

datatype Objective = cut | km1

record Metrics =
  metric_cut :: int
  metric_km1 :: int
  imbalance :: real

definition getMetric :: "Objective \<Rightarrow> Metrics \<Rightarrow> int" where
  "getMetric obj m = (case obj of cut \<Rightarrow> metric_cut m | km1 \<Rightarrow> metric_km1 m)"

definition updateMetric :: "int \<Rightarrow> Objective \<Rightarrow> Metrics \<Rightarrow> Metrics" where
  "updateMetric v obj m = (case obj of cut \<Rightarrow> m\<lparr>metric_cut := v\<rparr> | km1 \<Rightarrow> m\<lparr>metric_km1 := v\<rparr>)"

text \<open>
  Alpha is a double that the refiner doubles, quadruples and halves. A double is a real
  number (any real stands for itself; the doubles are among them), an infinity or
  not-a-number. Doubling is exact unless the result exceeds \<open>DBL_MAX\<close>, the largest double,
  where it gives an infinity. Halving is exact on every value the loop halves: the first
  pass halves twice the configured alpha, every later pass halves an alpha greater than 1.
  \<open>==\<close> never holds of not-a-number, and \<open>alpha > 1.0\<close> is false of it.
\<close>

datatype double = Finite real | PlusInfinity | MinusInfinity | NaN

definition DBL_MAX :: real where
  "DBL_MAX = (2 ^ 53 - 1) * 2 ^ 971"

fun double_twice :: "double \<Rightarrow> double" where
  "double_twice (Finite x) =
     (if DBL_MAX < x * 2 then PlusInfinity
      else if x * 2 < - DBL_MAX then MinusInfinity
      else Finite (x * 2))"
| "double_twice PlusInfinity = PlusInfinity"
| "double_twice MinusInfinity = MinusInfinity"
| "double_twice NaN = NaN"

fun double_half :: "double \<Rightarrow> double" where
  "double_half (Finite x) = Finite (x / 2)"
| "double_half PlusInfinity = PlusInfinity"
| "double_half MinusInfinity = MinusInfinity"
| "double_half NaN = NaN"

definition double_eq :: "double \<Rightarrow> double \<Rightarrow> bool" where
  "double_eq a b = (a \<noteq> NaN \<and> b \<noteq> NaN \<and> a = b)"

fun exceeds_one :: "double \<Rightarrow> bool" where
  "exceeds_one (Finite x) = (1 < x)"
| "exceeds_one PlusInfinity = True"
| "exceeds_one MinusInfinity = False"
| "exceeds_one NaN = False"

record FlowContext =
  alpha :: double
  ignore_small_hyperedge_cut :: bool
  use_adaptive_alpha_stopping_rule :: bool
  use_most_balanced_minimum_cut :: bool
  epsilon :: real
  objective :: Objective

text \<open>
  \<open>Flow\<close> and \<open>HyperedgeWeight\<close> are 32-bit signed integers; \<open>INFTY\<close> is the largest. The
  weights of the cut hyperedges, which the refiner adds up, are 32-bit words read as signed;
  the sum wraps around.
\<close>

definition INFTY :: int where
  "INFTY = 2147483647"

subsection \<open>\<open>MaximumFlow\<close>: moving hypernodes, minimum cut, rollback\<close>

definition moveHypernode :: "Hypergraph \<Rightarrow> nat \<Rightarrow> int \<Rightarrow> Hypergraph option" where
  "moveHypernode h hn to =
     (if hn < length (partID h) \<and> partID h ! hn \<noteq> - 1
      then (let from = partID h ! hn in
            if from \<noteq> to then changeNodePart h hn from to else Some h)
      else None)"

text \<open>
  What one pass of the refiner obtains from the parts of the repository that are not among
  the sources (quotient graph, flow network, the solver behind the virtual \<open>maximumFlow\<close>,
  the most balanced minimum cut, \<open>metrics::imbalance\<close> and \<open>metrics::objective\<close>), taken as
  parameters of the pass:
  the cut hyperedges of the block pair with their weights, the hypernodes of the flow
  network (a sparse set: no hypernode twice), whether the flow problem is trivial, the cut
  of the flow network before, the value of the maximum flow, the block that the minimum
  cut gives to each hypernode of the network, and the imbalance and objective of the
  hypergraph once that assignment is made.
\<close>

record FlowPass =
  blockPairCutHyperedges :: "(nat \<times> 32 word) list"
  hypernodes :: "nat list"
  isTrivialFlow :: bool
  cut_flow_network_before :: int
  maximumFlow :: int
  minCutBlock :: "nat \<Rightarrow> int"
  imbalance_after :: real
  objective_after :: int

text \<open>First loop of \<open>minimumSTCut\<close>: remember the block of every hypernode, move it to the default block.\<close>

fun storeAndMove :: "int \<Rightarrow> nat list \<Rightarrow> Hypergraph \<times> int list \<Rightarrow> (Hypergraph \<times> int list) option" where
  "storeAndMove d [] s = Some s"
| "storeAndMove d (hn # hns) (h, orig) =
     (if hn < length orig \<and> hn < length (partID h)
      then (case moveHypernode h hn d of
              None \<Rightarrow> None
            | Some h' \<Rightarrow> storeAndMove d hns (h', orig[hn := partID h ! hn]))
      else None)"

text \<open>
  Modelled from the spec: the most balanced minimum cut (and the breadth-first search that
  assigns the source side) are not among the sources; they move hypernodes of the flow
  network only, each to the block the minimum cut gives it.
\<close>

fun assignMinCut :: "(nat \<Rightarrow> int) \<Rightarrow> nat list \<Rightarrow> Hypergraph \<Rightarrow> Hypergraph option" where
  "assignMinCut f [] h = Some h"
| "assignMinCut f (hn # hns) h =
     (case moveHypernode h hn (f hn) of
        None \<Rightarrow> None
      | Some h' \<Rightarrow> assignMinCut f hns h')"

definition minimumSTCut ::
  "FlowContext \<Rightarrow> FlowPass \<Rightarrow> int \<Rightarrow> int \<Rightarrow> Hypergraph \<times> int list \<Rightarrow> (int \<times> Hypergraph \<times> int list) option" where
  "minimumSTCut ctx p block_0 block_1 s =
     (if isTrivialFlow p then Some (INFTY, s)
      else (let defaultPart = (if use_most_balanced_minimum_cut ctx then block_0 else block_1) in
            case storeAndMove defaultPart (hypernodes p) s of
              None \<Rightarrow> None
            | Some (h1, orig1) \<Rightarrow>
                (case assignMinCut (minCutBlock p) (hypernodes p) h1 of
                   None \<Rightarrow> None
                 | Some h2 \<Rightarrow> Some (maximumFlow p, h2, orig1))))"

fun rollback :: "bool \<Rightarrow> nat list \<Rightarrow> Hypergraph \<times> int list \<Rightarrow> (Hypergraph \<times> int list) option" where
  "rollback storePartID [] s = Some s"
| "rollback storePartID (hn # hns) (h, orig) =
     (if hn < length orig \<and> hn < length (partID h)
      then (let from = partID h ! hn in
            case moveHypernode h hn (orig ! hn) of
              None \<Rightarrow> None
            | Some h' \<Rightarrow> rollback storePartID hns (h', if storePartID then orig[hn := from] else orig))
      else None)"

text \<open>
  The loop of \<open>refineImpl\<close> that performs the accepted moves through the quotient graph.
  Modelled from the spec: \<open>QuotientGraphBlockScheduler::changeNodePart\<close> is not among the
  sources; it changes the part in the hypergraph and updates the cut hyperedges per pair.
\<close>

fun performMoves :: "nat list \<Rightarrow> int list \<Rightarrow> Hypergraph \<Rightarrow> Hypergraph option" where
  "performMoves [] orig h = Some h"
| "performMoves (hn # hns) orig h =
     (if hn < length orig \<and> hn < length (partID h)
      then (let from = partID h ! hn; to = orig ! hn in
            if from \<noteq> to
            then (case changeNodePart h hn from to of
                    None \<Rightarrow> None
                  | Some h' \<Rightarrow> performMoves hns orig h')
            else performMoves hns orig h)
      else None)"

subsection \<open>\<open>TwoWayFlowRefiner::refineImpl\<close>\<close>

record RefinerState =
  hg :: Hypergraph
  originalPartID :: "int list"
  best_metrics :: Metrics

definition isRefinementOnLastLevel :: "Hypergraph \<Rightarrow> bool" where
  "isRefinementOnLastLevel h = (currentNumNodes h = initialNumNodes h)"

text \<open>
  How an iteration of the do-while loop ends: the early \<open>return false\<close> of the small-cut
  heuristic, one of the two \<open>break\<close>s before the decision, or the decision (whether the
  iteration improved, and whether the cut of the flow network stayed the same).
\<close>

datatype pass_outcome = SmallCutSkip | CutIsZero | TrivialCut | Improved | NotImproved bool

datatype iteration_result =
    Return bool RefinerState
  | Break double bool RefinerState
  | Continue double bool RefinerState
  | Failed

text \<open>
  The second half of an iteration, lines 544 to 604 of \<open>refineImpl\<close>: the two assertions,
  the decision, \<open>rollback\<close>, the moves of an accepted assignment, and the stopping rule.
  \<open>alpha1\<close> is the alpha of the iteration, \<open>h1\<close> and \<open>orig1\<close> are the hypergraph and the
  stored parts as \<open>minimumSTCut\<close> left them.
\<close>

definition decideAndApply ::
  "FlowContext \<Rightarrow> FlowPass \<Rightarrow> double \<Rightarrow> bool \<Rightarrow> RefinerState \<Rightarrow> int \<Rightarrow> Hypergraph \<Rightarrow> int list
     \<Rightarrow> (double \<times> pass_outcome) \<times> iteration_result" where
  "decideAndApply ctx p alpha1 improvement st cut_flow_network_after h1 orig1 =
     (let delta = cut_flow_network_before p - cut_flow_network_after in
      if \<not> (cut_flow_network_after \<le> cut_flow_network_before p) \<or>
         getMetric (objective ctx) (best_metrics st) - delta \<noteq> objective_after p
      then ((alpha1, TrivialCut), Failed)
      else
        (let current_imbalance = imbalance_after p;
             old_metric = getMetric (objective ctx) (best_metrics st);
             current_metric = old_metric - delta;
             equal_metric = (current_metric = getMetric (objective ctx) (best_metrics st));
             improved_metric = (current_metric < getMetric (objective ctx) (best_metrics st));
             improved_imbalance = (current_imbalance < imbalance (best_metrics st));
             is_feasible_partition = (current_imbalance \<le> epsilon ctx);
             current_improvement =
               ((improved_metric \<and> (is_feasible_partition \<or> improved_imbalance)) \<or>
                (equal_metric \<and> improved_imbalance));
             best1 = (if current_improvement
                      then (updateMetric current_metric (objective ctx) (best_metrics st))
                             \<lparr>imbalance := current_imbalance\<rparr>
                      else best_metrics st);
             improvement1 = (improvement \<or> current_improvement);
             alpha2 = (if current_improvement
                       then (if double_eq alpha1 (alpha ctx) then double_twice alpha1
                             else double_twice (double_twice alpha1))
                       else alpha1);
             outcome = (if current_improvement then Improved
                        else NotImproved (cut_flow_network_before p = cut_flow_network_after)) in
         case rollback current_improvement (hypernodes p) (h1, orig1) of
           None \<Rightarrow> ((alpha1, outcome), Failed)
         | Some (h2, orig2) \<Rightarrow>
             (case (if current_improvement then performMoves (hypernodes p) orig2 h2
                    else Some h2) of
                None \<Rightarrow> ((alpha1, outcome), Failed)
              | Some h3 \<Rightarrow>
                  (let st3 = \<lparr>hg = h3, originalPartID = orig2, best_metrics = best1\<rparr> in
                   if use_adaptive_alpha_stopping_rule ctx \<and> \<not> improvement1 \<and>
                      cut_flow_network_before p = cut_flow_network_after
                   then ((alpha1, outcome), Break alpha2 improvement1 st3)
                   else ((alpha1, outcome), Continue alpha2 improvement1 st3)))))"

text \<open>
  One iteration of the do-while loop, from \<open>alpha /= 2.0\<close> to just before the test
  \<open>alpha > 1.0\<close>. The arguments are alpha and \<open>improvement\<close> as the iteration finds them; the
  result carries the alpha the iteration ran with and its outcome. A violated \<open>ASSERT\<close> and
  an access out of range give \<open>Failed\<close>.
\<close>

definition flowIteration ::
  "FlowContext \<Rightarrow> int \<Rightarrow> int \<Rightarrow> FlowPass \<Rightarrow> double \<Rightarrow> bool \<Rightarrow> RefinerState
     \<Rightarrow> (double \<times> pass_outcome) \<times> iteration_result" where
  "flowIteration ctx block0 block1 p alpha0 improvement st =
     (let alpha1 = double_half alpha0;
          cut_hes = map fst (blockPairCutHyperedges p);
          cut_weight = sum_list (map snd (blockPairCutHyperedges p)) in
      if ignore_small_hyperedge_cut ctx \<and> sint cut_weight \<le> 10 \<and> \<not> isRefinementOnLastLevel (hg st)
      then ((alpha1, SmallCutSkip), Return False st)
      else if length cut_hes = 0
      then ((alpha1, CutIsZero), Break alpha1 improvement st)
      else
        (case minimumSTCut ctx p block0 block1 (hg st, originalPartID st) of
           None \<Rightarrow> ((alpha1, TrivialCut), Failed)
         | Some (cut_flow_network_after, h1, orig1) \<Rightarrow>
             if cut_flow_network_after = INFTY
             then ((alpha1, TrivialCut), Break alpha1 improvement (st\<lparr>hg := h1, originalPartID := orig1\<rparr>))
             else decideAndApply ctx p alpha1 improvement st cut_flow_network_after h1 orig1))"

text \<open>
  The do-while loop. Each iteration takes the next element of the list of passes; the list
  running out before the loop ends gives \<open>None\<close>, as does a failed iteration. The result is
  the returned flag, the final state and, for every iteration, the alpha it ran with and
  its outcome.
\<close>

fun adaptiveFlowIterations ::
  "FlowContext \<Rightarrow> int \<Rightarrow> int \<Rightarrow> FlowPass list \<Rightarrow> double \<Rightarrow> bool \<Rightarrow> RefinerState
     \<Rightarrow> (bool \<times> RefinerState \<times> (double \<times> pass_outcome) list) option" where
  "adaptiveFlowIterations ctx block0 block1 [] alpha0 improvement st = None"
| "adaptiveFlowIterations ctx block0 block1 (p # ps) alpha0 improvement st =
     (case flowIteration ctx block0 block1 p alpha0 improvement st of
        (entry, Failed) \<Rightarrow> None
      | (entry, Return b st') \<Rightarrow> Some (b, st', [entry])
      | (entry, Break alpha' improvement' st') \<Rightarrow> Some (improvement', st', [entry])
      | (entry, Continue alpha' improvement' st') \<Rightarrow>
          (if exceeds_one alpha'
           then (case adaptiveFlowIterations ctx block0 block1 ps alpha' improvement' st' of
                   None \<Rightarrow> None
                 | Some (b, st'', entries) \<Rightarrow> Some (b, st'', entry # entries))
           else Some (improvement', st', [entry])))"

definition refineImpl ::
  "FlowContext \<Rightarrow> bool \<Rightarrow> int \<Rightarrow> int \<Rightarrow> FlowPass list \<Rightarrow> nat list \<Rightarrow> RefinerState
     \<Rightarrow> ((bool \<times> RefinerState \<times> (double \<times> pass_outcome) list) \<times> nat list) option" where
  "refineImpl ctx ignore_flow_execution_policy block0 block1 passes flowExecutionLevels st =
     (case executeFlow (currentNumNodes (hg st)) flowExecutionLevels of
        (execute, levels') \<Rightarrow>
          if \<not> execute \<and> \<not> ignore_flow_execution_policy
          then Some ((False, st, []), levels')
          else (case adaptiveFlowIterations ctx block0 block1 passes (double_twice (alpha ctx)) False st of
                  None \<Rightarrow> None
                | Some r \<Rightarrow> Some (r, levels')))"

subsection \<open>Notions used to state the properties of the refiner\<close>

text \<open>The decision of lines 568 to 575, as a predicate of the cut the flow computation returned.\<close>

definition acceptsAssignment :: "FlowContext \<Rightarrow> FlowPass \<Rightarrow> Metrics \<Rightarrow> int \<Rightarrow> bool" where
  "acceptsAssignment ctx p best c =
     (let current_metric = getMetric (objective ctx) best - (cut_flow_network_before p - c) in
      (current_metric < getMetric (objective ctx) best \<and>
         (imbalance_after p \<le> epsilon ctx \<or> imbalance_after p < imbalance best)) \<or>
      (current_metric = getMetric (objective ctx) best \<and> imbalance_after p < imbalance best))"

text \<open>The alpha after \<open>alpha *= (alpha == configured ? 2.0 : 4.0)\<close>.\<close>

definition raisedAlpha :: "FlowContext \<Rightarrow> double \<Rightarrow> double" where
  "raisedAlpha ctx a =
     (if double_eq a (alpha ctx) then double_twice a else double_twice (double_twice a))"


text \<open>The partition in which the hypernodes of the flow network have the blocks of the minimum cut.\<close>

definition minCutAssignment :: "FlowPass \<Rightarrow> int list \<Rightarrow> int list" where
  "minCutAssignment p parts =
     map (\<lambda>i. if i \<in> set (hypernodes p) then minCutBlock p i else parts ! i) [0..<length parts]"

fun result_state :: "iteration_result \<Rightarrow> RefinerState option" where
  "result_state (Return b st) = Some st"
| "result_state (Break a b st) = Some st"
| "result_state (Continue a b st) = Some st"
| "result_state Failed = None"

text \<open>
  A run on four hypernodes, blocks \<open>0, 0, 1, 1\<close>, on the finest level, best cut 20 and
  imbalance 0, alpha 16 and epsilon 0.03: a pass that lowers the cut to 15 and stays
  balanced, the same pass with an imbalance of 0.5, a pass that leaves the cut at 15, and
  a pass that finds no cut hyperedge. The last example is a coarser level with a cut of
  weight 9.
\<close>

definition ex_ctx :: FlowContext where
  "ex_ctx = \<lparr>alpha = Finite 16, ignore_small_hyperedge_cut = True, use_adaptive_alpha_stopping_rule = True,
             use_most_balanced_minimum_cut = True, epsilon = 3 / 100, objective = cut\<rparr>"

definition ex_state :: RefinerState where
  "ex_state = \<lparr>hg = \<lparr>partID = [0, 0, 1, 1], currentNumNodes = 4, initialNumNodes = 4\<rparr>,
               originalPartID = [0, 0, 0, 0],
               best_metrics = \<lparr>metric_cut = 20, metric_km1 = 20, imbalance = 0\<rparr>\<rparr>"

definition ex_pass_improving :: FlowPass where
  "ex_pass_improving = \<lparr>blockPairCutHyperedges = [(0, 12), (1, 8)], hypernodes = [1, 2],
      isTrivialFlow = False, cut_flow_network_before = 20, maximumFlow = 15,
      minCutBlock = (\<lambda>v. if v = 1 then 1 else 0), imbalance_after = 0, objective_after = 15\<rparr>"

definition ex_pass_infeasible :: FlowPass where
  "ex_pass_infeasible = ex_pass_improving\<lparr>imbalance_after := 1 / 2\<rparr>"

definition ex_pass_same_cut :: FlowPass where
  "ex_pass_same_cut = \<lparr>blockPairCutHyperedges = [(0, 12), (2, 3)], hypernodes = [0, 3],
      isTrivialFlow = False, cut_flow_network_before = 15, maximumFlow = 15,
      minCutBlock = (\<lambda>v. if v = 0 then 0 else 1), imbalance_after = 0, objective_after = 15\<rparr>"

definition ex_pass_no_cut :: FlowPass where
  "ex_pass_no_cut = \<lparr>blockPairCutHyperedges = [], hypernodes = [],
      isTrivialFlow = False, cut_flow_network_before = 0, maximumFlow = 0,
      minCutBlock = (\<lambda>v. 0), imbalance_after = 0, objective_after = 15\<rparr>"

definition ex_pass_small_cut :: FlowPass where
  "ex_pass_small_cut = \<lparr>blockPairCutHyperedges = [(0, 4), (1, 5)], hypernodes = [1, 2],
      isTrivialFlow = False, cut_flow_network_before = 9, maximumFlow = 5,
      minCutBlock = (\<lambda>v. if v = 1 then 1 else 0), imbalance_after = 0, objective_after = 16\<rparr>"

definition ex_state_coarse :: RefinerState where
  "ex_state_coarse = ex_state\<lparr>hg := (hg ex_state)\<lparr>currentNumNodes := 3\<rparr>\<rparr>"

text \<open>
  A pass whose two cut hyperedges weigh \<open>2147483647\<close> and \<open>1\<close>, and a context whose alpha is
  the largest double.
\<close>

definition ex_pass_overflow :: FlowPass where
  "ex_pass_overflow = ex_pass_improving\<lparr>blockPairCutHyperedges := [(0, 2147483647), (1, 1)]\<rparr>"

definition ex_ctx_largest_alpha :: FlowContext where
  "ex_ctx_largest_alpha = ex_ctx\<lparr>alpha := Finite DBL_MAX\<rparr>"

section \<open>The k-way priority queue\<close>

subsection \<open>The heaps\<close>

text \<open>
  Modelled from the spec: \<open>BinaryMaxHeap\<close> (\<open>kahypar/datastructure/binary_heap.h\<close>) is not
  among the sources. The spec asks for per-block max-heaps that hold at most one entry per
  vertex. A heap is modelled by the list of its entries \<open>(id, key)\<close>; \<open>top\<close> is an entry of
  largest key (the first of them), \<open>push\<close> of an id already contained and \<open>remove\<close> or
  \<open>updateKey\<close> of an id not contained fail.
\<close>

type_synonym ('id, 'key) BinaryMaxHeap = "('id \<times> 'key) list"

fun heap_max :: "('id \<times> 'key::linorder) \<Rightarrow> ('id \<times> 'key) list \<Rightarrow> 'id \<times> 'key" where
  "heap_max m [] = m"
| "heap_max m (x # xs) = heap_max (if snd m < snd x then x else m) xs"

fun heap_top :: "('id, 'key::linorder) BinaryMaxHeap \<Rightarrow> ('id \<times> 'key) option" where
  "heap_top [] = None"
| "heap_top (x # xs) = Some (heap_max x xs)"

definition heap_contains :: "('id, 'key) BinaryMaxHeap \<Rightarrow> 'id \<Rightarrow> bool" where
  "heap_contains h v = (v \<in> set (map fst h))"

definition push :: "('id, 'key) BinaryMaxHeap \<Rightarrow> 'id \<Rightarrow> 'key \<Rightarrow> ('id, 'key) BinaryMaxHeap option" where
  "push h v key = (if heap_contains h v then None else Some (h @ [(v, key)]))"

definition pop :: "('id, 'key::linorder) BinaryMaxHeap \<Rightarrow> ('id, 'key) BinaryMaxHeap option" where
  "pop h = (case heap_top h of None \<Rightarrow> None | Some e \<Rightarrow> Some (remove1 e h))"

definition heap_remove :: "('id, 'key) BinaryMaxHeap \<Rightarrow> 'id \<Rightarrow> ('id, 'key) BinaryMaxHeap option" where
  "heap_remove h v = (if heap_contains h v then Some (filter (\<lambda>e. fst e \<noteq> v) h) else None)"

definition heap_updateKey :: "('id, 'key) BinaryMaxHeap \<Rightarrow> 'id \<Rightarrow> 'key \<Rightarrow> ('id, 'key) BinaryMaxHeap option" where
  "heap_updateKey h v key =
     (if heap_contains h v then Some (map (\<lambda>e. if fst e = v then (v, key) else e) h) else None)"

definition getKey :: "('id, 'key) BinaryMaxHeap \<Rightarrow> 'id \<Rightarrow> 'key option" where
  "getKey h v = map_of h v"

subsection \<open>\<open>KWayPriorityQueue\<close>\<close>

text \<open>
  The state is the one of the class: the vector of heaps, the vector \<open>_mapping\<close> of
  \<open>k + 1\<close> pairs (the last one a sentinel) that maps an index to its part and a part to its
  index, and the three counters. \<open>kInvalidIndex\<close> is the largest \<open>size_t\<close>, \<open>kInvalidPart\<close>
  the largest \<open>PartitionID\<close> (a 32-bit signed integer). The vector \<open>_ties\<close> is written with
  random tie breaking only; the constructor fills it with \<open>k\<close> zeros. A violated \<open>ASSERT\<close> and an access out of range
  make an operation fail (\<open>None\<close>). \<open>MetaKey::min()\<close> and \<open>MetaKey::max()\<close>, the least and
  the largest value of the key type, are parameters \<open>kmin\<close> and \<open>kmax\<close>.
\<close>

definition kInvalidIndex :: nat where
  "kInvalidIndex = 18446744073709551615"

definition kInvalidPart :: nat where
  "kInvalidPart = 2147483647"

record IndexPartMapping =
  part :: nat
  index :: nat

record ('id, 'key) KWayPriorityQueue =
  queues :: "('id, 'key) BinaryMaxHeap list"
  mapping :: "IndexPartMapping list"
  num_entries :: nat
  num_nonempty_pqs :: nat
  num_enabled_pqs :: nat
  ties :: "nat list"

text \<open>The constructor followed by \<open>initialize\<close>.\<close>

definition initialize :: "nat \<Rightarrow> ('id, 'key) KWayPriorityQueue" where
  "initialize k =
     \<lparr>queues = replicate k [],
      mapping = replicate (k + 1) \<lparr>part = kInvalidPart, index = kInvalidIndex\<rparr>,
      num_entries = 0, num_nonempty_pqs = 0, num_enabled_pqs = 0, ties = replicate k 0\<rparr>"

text \<open>\<open>_mapping[i].part\<close> and \<open>_mapping[p].index\<close>, read and written.\<close>

definition part_at :: "IndexPartMapping list \<Rightarrow> nat \<Rightarrow> nat" where
  "part_at m i = part (m ! i)"

definition index_of :: "IndexPartMapping list \<Rightarrow> nat \<Rightarrow> nat" where
  "index_of m p = index (m ! p)"

definition set_part :: "IndexPartMapping list \<Rightarrow> nat \<Rightarrow> nat \<Rightarrow> IndexPartMapping list" where
  "set_part m i p = m[i := (m ! i)\<lparr>part := p\<rparr>]"

definition set_index :: "IndexPartMapping list \<Rightarrow> nat \<Rightarrow> nat \<Rightarrow> IndexPartMapping list" where
  "set_index m p i = m[p := (m ! p)\<lparr>index := i\<rparr>]"

definition isUnused :: "('id, 'key) KWayPriorityQueue \<Rightarrow> nat \<Rightarrow> bool" where
  "isUnused s p = (index_of (mapping s) p = kInvalidIndex)"

definition isEnabled :: "('id, 'key) KWayPriorityQueue \<Rightarrow> nat \<Rightarrow> bool" where
  "isEnabled s p = (index_of (mapping s) p < num_enabled_pqs s)"

definition size_part :: "('id, 'key) KWayPriorityQueue \<Rightarrow> nat \<Rightarrow> nat" where
  "size_part s p =
     (if index_of (mapping s) p < num_nonempty_pqs s
      then length (queues s ! index_of (mapping s) p) else 0)"

text \<open>
  The private \<open>swap(index_a, index_b)\<close>: the two heaps, the two parts, then the indices of
  these two parts; the final \<open>ASSERT\<close> is checked.
\<close>

definition swap :: "('id, 'key) KWayPriorityQueue \<Rightarrow> nat \<Rightarrow> nat \<Rightarrow> ('id, 'key) KWayPriorityQueue option" where
  "swap s index_a index_b =
     (if index_a < length (queues s) \<and> index_b < length (queues s) \<and>
         index_a < length (mapping s) \<and> index_b < length (mapping s)
      then
        (let qs = (queues s)[index_a := queues s ! index_b, index_b := queues s ! index_a];
             m1 = set_part (set_part (mapping s) index_a (part_at (mapping s) index_b))
                    index_b (part_at (mapping s) index_a);
             pa = part_at m1 index_a;
             pb = part_at m1 index_b
         in if pa < length m1 \<and> pb < length m1
            then (let m2 = set_index (set_index m1 pa (index_of m1 pb)) pb (index_of m1 pa)
                  in if index_of m2 (part_at m2 index_a) = index_a \<and>
                        index_of m2 (part_at m2 index_b) = index_b
                     then Some (s\<lparr>queues := qs, mapping := m2\<rparr>)
                     else None)
            else None)
      else None)"

definition markUnused :: "('id, 'key) KWayPriorityQueue \<Rightarrow> nat \<Rightarrow> ('id, 'key) KWayPriorityQueue option" where
  "markUnused s p =
     (if p < length (mapping s) \<and> index_of (mapping s) p < length (mapping s)
      then Some (s\<lparr>mapping :=
                   set_index (set_part (mapping s) (index_of (mapping s) p) kInvalidPart) p kInvalidIndex\<rparr>)
      else None)"

definition enablePart :: "('id, 'key) KWayPriorityQueue \<Rightarrow> nat \<Rightarrow> ('id, 'key) KWayPriorityQueue option" where
  "enablePart s p =
     (if \<not> p < length (queues s) then None
      else if \<not> isUnused s p \<and> \<not> isEnabled s p
      then do {
        s1 \<leftarrow> swap s (index_of (mapping s) p) (num_enabled_pqs s);
        let s2 = s1\<lparr>num_enabled_pqs := num_enabled_pqs s1 + 1\<rparr>;
        if num_enabled_pqs s2 \<le> num_nonempty_pqs s2 then Some s2 else None
      }
      else Some s)"

definition disablePart :: "('id, 'key) KWayPriorityQueue \<Rightarrow> nat \<Rightarrow> ('id, 'key) KWayPriorityQueue option" where
  "disablePart s p =
     (if \<not> p < length (queues s) then None
      else if isEnabled s p
      then (let s1 = s\<lparr>num_enabled_pqs := num_enabled_pqs s - 1\<rparr>
            in swap s1 (index_of (mapping s1) p) (num_enabled_pqs s1))
      else Some s)"

definition insert_pq ::
  "('id, 'key) KWayPriorityQueue \<Rightarrow> 'id \<Rightarrow> nat \<Rightarrow> 'key \<Rightarrow> ('id, 'key) KWayPriorityQueue option" where
  "insert_pq s v p key =
     (if \<not> p < length (queues s) \<or> \<not> p < length (mapping s) \<or>
         \<not> num_nonempty_pqs s < length (mapping s) then None
      else if \<not> (index_of (mapping s) p \<noteq> kInvalidIndex \<or>
                 part_at (mapping s) (num_nonempty_pqs s) = kInvalidPart) then None
      else
        (let m1 = set_part (mapping s) (num_nonempty_pqs s)
                    (if index_of (mapping s) p = kInvalidIndex then p
                     else part_at (mapping s) (num_nonempty_pqs s));
             unused = (index_of m1 p = kInvalidIndex);
             m2 = set_index m1 p (if unused then num_nonempty_pqs s else index_of m1 p);
             nonempty = (if unused then num_nonempty_pqs s + 1 else num_nonempty_pqs s);
             i = index_of m2 p
         in if \<not> i < length (queues s) then None
            else do {
              q \<leftarrow> push (queues s ! i) v key;
              Some (s\<lparr>queues := (queues s)[i := q], mapping := m2,
                      num_nonempty_pqs := nonempty, num_entries := num_entries s + 1\<rparr>)
            }))"

text \<open>The loop of \<open>maxIndex\<close> over the indices below \<open>_num_enabled_pqs\<close>.\<close>

fun maxIndex_loop ::
  "('id, 'key::linorder) BinaryMaxHeap list \<Rightarrow> nat list \<Rightarrow> nat \<Rightarrow> 'key \<Rightarrow> nat option" where
  "maxIndex_loop qs [] max_index max_key = Some max_index"
| "maxIndex_loop qs (i # is) max_index max_key =
     (if \<not> i < length qs then None
      else (case heap_top (qs ! i) of
              None \<Rightarrow> None
            | Some (v, key) \<Rightarrow>
                if max_key < key then maxIndex_loop qs is i key
                else maxIndex_loop qs is max_index max_key))"

definition maxIndex :: "'key \<Rightarrow> ('id, 'key::linorder) KWayPriorityQueue \<Rightarrow> nat option" where
  "maxIndex kmin s =
     (case maxIndex_loop (queues s) [0..<num_enabled_pqs s] kInvalidIndex kmin of
        None \<Rightarrow> None
      | Some max_index \<Rightarrow> if max_index \<noteq> kInvalidIndex then Some max_index else None)"

text \<open>
  What \<open>deleteMax\<close> and \<open>deleteMaxFromPartition\<close> both do when the heap of the part has
  become empty: both counters go down, the part is swapped to the end of the enabled
  range, then to the end of the non-empty range, and marked unused.
\<close>

definition retireEnabledPart :: "('id, 'key) KWayPriorityQueue \<Rightarrow> nat \<Rightarrow> ('id, 'key) KWayPriorityQueue option" where
  "retireEnabledPart s p =
     (if \<not> isEnabled s p then None
      else do {
        let s1 = s\<lparr>num_enabled_pqs := num_enabled_pqs s - 1,
                   num_nonempty_pqs := num_nonempty_pqs s - 1\<rparr>;
        s2 \<leftarrow> swap s1 (index_of (mapping s1) p) (num_enabled_pqs s1);
        s3 \<leftarrow> swap s2 (index_of (mapping s2) p) (num_nonempty_pqs s2);
        markUnused s3 p
      })"

text \<open>
  The loop of \<open>maxIndexRandomTieBreaking\<close>, which collects in \<open>_ties\<close> the indices of the
  largest key seen; \<open>_ties\<close> is cleared only when a key above the current maximum is met, and
  the maximum starts at \<open>MetaKey::min()\<close>. \<open>Randomize\<close> is not among the sources: the number
  that \<open>getRandomInt(0, _ties.size() - 1)\<close> returns is the parameter \<open>r\<close>, and a number that
  is no position of \<open>_ties\<close> makes the access fail.
\<close>

fun maxIndexRandomTieBreaking_loop ::
  "('id, 'key::linorder) BinaryMaxHeap list \<Rightarrow> nat list \<Rightarrow> 'key \<Rightarrow> nat list \<Rightarrow> nat list option" where
  "maxIndexRandomTieBreaking_loop qs [] max_key ts = Some ts"
| "maxIndexRandomTieBreaking_loop qs (i # is) max_key ts =
     (if \<not> i < length qs then None
      else (case heap_top (qs ! i) of
              None \<Rightarrow> None
            | Some (v, key) \<Rightarrow>
                if max_key < key then maxIndexRandomTieBreaking_loop qs is key [i]
                else if key = max_key then maxIndexRandomTieBreaking_loop qs is max_key (ts @ [i])
                else maxIndexRandomTieBreaking_loop qs is max_key ts))"

definition maxIndexRandomTieBreaking ::
  "nat \<Rightarrow> 'key \<Rightarrow> ('id, 'key::linorder) KWayPriorityQueue
     \<Rightarrow> (nat \<times> ('id, 'key) KWayPriorityQueue) option" where
  "maxIndexRandomTieBreaking r kmin s =
     (case maxIndexRandomTieBreaking_loop (queues s) [0..<num_enabled_pqs s] kmin (ties s) of
        None \<Rightarrow> None
      | Some ts \<Rightarrow> if r < length ts then Some (ts ! r, s\<lparr>ties := ts\<rparr>) else None)"

text \<open>
  \<open>deleteMax\<close>, for both values of the template parameter \<open>UseRandomTieBreaking\<close>; \<open>r\<close> is
  the random number of this call, read with random tie breaking only.
\<close>

definition deleteMax ::
  "bool \<Rightarrow> nat \<Rightarrow> 'key \<Rightarrow> 'key \<Rightarrow> ('id, 'key::linorder) KWayPriorityQueue
     \<Rightarrow> (('id \<times> 'key \<times> nat) \<times> ('id, 'key) KWayPriorityQueue) option" where
  "deleteMax UseRandomTieBreaking r kmin kmax s0 =
     do {
       (max_index, s) \<leftarrow> (if UseRandomTieBreaking then maxIndexRandomTieBreaking r kmin s0
                          else map_option (\<lambda>i. (i, s0)) (maxIndex kmin s0));
       if \<not> max_index < num_enabled_pqs s \<or> \<not> max_index < length (queues s) \<or>
          \<not> max_index < length (mapping s) then None
       else do {
         let max_part = part_at (mapping s) max_index;
         (max_id, max_key) \<leftarrow> heap_top (queues s ! max_index);
         if \<not> max_part < length (queues s) \<or> \<not> max_part < length (mapping s) \<or>
            max_part = kInvalidPart \<or> max_key = kmax \<or> max_index = kInvalidIndex \<or>
            \<not> index_of (mapping s) max_part < length (mapping s) \<or>
            part_at (mapping s) (index_of (mapping s) max_part) \<noteq> max_part then None
         else do {
           q \<leftarrow> pop (queues s ! max_index);
           let s1 = s\<lparr>queues := (queues s)[max_index := q]\<rparr>;
           s2 \<leftarrow> (if queues s1 ! max_index = [] then retireEnabledPart s1 max_part else Some s1);
           Some ((max_id, max_key, max_part), s2\<lparr>num_entries := num_entries s2 - 1\<rparr>)
         }
       }
     }"

definition deleteMaxFromPartition ::
  "'key \<Rightarrow> ('id, 'key::linorder) KWayPriorityQueue \<Rightarrow> nat
     \<Rightarrow> (('id \<times> 'key) \<times> ('id, 'key) KWayPriorityQueue) option" where
  "deleteMaxFromPartition kmax s p =
     (if \<not> p < length (queues s) \<or> \<not> p < length (mapping s) then None
      else
        (let part_index = index_of (mapping s) p
         in if \<not> part_index < num_enabled_pqs s \<or> \<not> part_index < length (queues s) \<or>
               \<not> part_index < length (mapping s) then None
            else do {
              (max_id, max_key) \<leftarrow> heap_top (queues s ! part_index);
              if part_at (mapping s) (index_of (mapping s) p) \<noteq> p \<or> part_index = kInvalidIndex \<or>
                 max_key = kmax \<or> p = kInvalidPart then None
              else do {
                q \<leftarrow> pop (queues s ! part_index);
                let s1 = s\<lparr>queues := (queues s)[part_index := q]\<rparr>;
                s2 \<leftarrow> (if queues s1 ! part_index = [] then retireEnabledPart s1 p else Some s1);
                Some ((max_id, max_key), s2\<lparr>num_entries := num_entries s2 - 1\<rparr>)
              }
            }))"

definition key_pq :: "('id, 'key) KWayPriorityQueue \<Rightarrow> 'id \<Rightarrow> nat \<Rightarrow> 'key option" where
  "key_pq s v p =
     (if p < length (queues s) \<and> p < length (mapping s) \<and>
         index_of (mapping s) p < num_nonempty_pqs s \<and> index_of (mapping s) p < length (queues s)
      then getKey (queues s ! index_of (mapping s) p) v else None)"

definition contains_pq :: "('id, 'key) KWayPriorityQueue \<Rightarrow> 'id \<Rightarrow> nat \<Rightarrow> bool" where
  "contains_pq s v p =
     (index_of (mapping s) p < num_nonempty_pqs s \<and>
      heap_contains (queues s ! index_of (mapping s) p) v)"

definition updateKey ::
  "('id, 'key) KWayPriorityQueue \<Rightarrow> 'id \<Rightarrow> nat \<Rightarrow> 'key \<Rightarrow> ('id, 'key) KWayPriorityQueue option" where
  "updateKey s v p key =
     (if \<not> p < length (queues s) \<or> \<not> p < length (mapping s) \<or>
         \<not> index_of (mapping s) p < num_nonempty_pqs s \<or>
         \<not> index_of (mapping s) p < length (queues s) then None
      else do {
        q \<leftarrow> heap_updateKey (queues s ! index_of (mapping s) p) v key;
        Some (s\<lparr>queues := (queues s)[index_of (mapping s) p := q]\<rparr>)
      })"

text \<open>
  What \<open>remove\<close> does when the heap of the part has become empty: an enabled part is
  first swapped to the end of the enabled range, the heap is cleared, and the part is
  swapped to the end of the non-empty range and marked unused.
\<close>

definition retirePart :: "('id, 'key) KWayPriorityQueue \<Rightarrow> nat \<Rightarrow> ('id, 'key) KWayPriorityQueue option" where
  "retirePart s p =
     do {
       s2 \<leftarrow> (if isEnabled s p
              then (let s' = s\<lparr>num_enabled_pqs := num_enabled_pqs s - 1\<rparr>
                    in swap s' (index_of (mapping s') p) (num_enabled_pqs s'))
              else Some s);
       if \<not> index_of (mapping s2) p < length (queues s2) then None
       else do {
         let s3 = s2\<lparr>queues := (queues s2)[index_of (mapping s2) p := []],
                    num_nonempty_pqs := num_nonempty_pqs s2 - 1\<rparr>;
         s4 \<leftarrow> swap s3 (index_of (mapping s3) p) (num_nonempty_pqs s3);
         markUnused s4 p
       }
     }"

definition remove_pq ::
  "('id, 'key) KWayPriorityQueue \<Rightarrow> 'id \<Rightarrow> nat \<Rightarrow> ('id, 'key) KWayPriorityQueue option" where
  "remove_pq s v p =
     (if \<not> p < length (queues s) \<or> \<not> p < length (mapping s) \<or>
         \<not> index_of (mapping s) p < num_nonempty_pqs s \<or>
         \<not> index_of (mapping s) p < length (queues s) then None
      else do {
        q \<leftarrow> heap_remove (queues s ! index_of (mapping s) p) v;
        let s1 = s\<lparr>queues := (queues s)[index_of (mapping s) p := q]\<rparr>;
        s5 \<leftarrow> (if queues s1 ! index_of (mapping s1) p = [] then retirePart s1 p else Some s1);
        Some (s5\<lparr>num_entries := num_entries s5 - 1\<rparr>)
      })"

subsection \<open>Invariants and runs of the queue\<close>

text \<open>
  The two halves of \<open>_mapping\<close> are inverse to each other on the first \<open>n\<close> indices, the
  other indices carry \<open>kInvalidPart\<close>, and a part either has no index or one below \<open>n\<close>.
\<close>

definition mapping_ok :: "IndexPartMapping list \<Rightarrow> nat \<Rightarrow> nat \<Rightarrow> bool" where
  "mapping_ok m k n \<longleftrightarrow>
     length m = k + 1 \<and> n \<le> k \<and> k < kInvalidPart \<and>
     (\<forall>i\<in>{..<n}. part_at m i < k \<and> index_of m (part_at m i) = i) \<and>
     (\<forall>i\<in>{n..k}. part_at m i = kInvalidPart) \<and>
     (\<forall>p\<in>{..<k}. index_of m p \<noteq> kInvalidIndex \<longrightarrow>
         index_of m p < n \<and> part_at m (index_of m p) = p)"

text \<open>The entries of the sub-queue of a part (none when the part is unused), as \<open>size(part)\<close> reads them.\<close>

definition entries :: "('id, 'key) KWayPriorityQueue \<Rightarrow> nat \<Rightarrow> ('id \<times> 'key) list" where
  "entries s p =
     (if index_of (mapping s) p < num_nonempty_pqs s
      then queues s ! index_of (mapping s) p else [])"

text \<open>
  The invariant of the class: the mapping is consistent up to \<open>_num_nonempty_pqs\<close>, the
  enabled range lies within the non-empty range, exactly the heaps below
  \<open>_num_nonempty_pqs\<close> are non-empty, no heap holds an id twice, and \<open>_num_entries\<close> is the
  sum of the sizes of the heaps.
\<close>

definition kpq_inv :: "('id, 'key) KWayPriorityQueue \<Rightarrow> bool" where
  "kpq_inv s \<longleftrightarrow>
     mapping_ok (mapping s) (length (queues s)) (num_nonempty_pqs s) \<and>
     num_enabled_pqs s \<le> num_nonempty_pqs s \<and>
     (\<forall>i\<in>{..<num_nonempty_pqs s}. queues s ! i \<noteq> []) \<and>
     (\<forall>i\<in>{num_nonempty_pqs s..<length (queues s)}. queues s ! i = []) \<and>
     (\<forall>q\<in>set (queues s). distinct (map fst q)) \<and>
     num_entries s = sum_list (map length (queues s))"

text \<open>Sequences of \<open>enablePart\<close> and \<open>disablePart\<close> calls.\<close>

datatype toggle = Enable nat | Disable nat

fun toggle_part :: "toggle \<Rightarrow> nat" where
  "toggle_part (Enable p) = p"
| "toggle_part (Disable p) = p"

fun apply_toggle :: "toggle \<Rightarrow> ('id, 'key) KWayPriorityQueue \<Rightarrow> ('id, 'key) KWayPriorityQueue option" where
  "apply_toggle (Enable p) s = enablePart s p"
| "apply_toggle (Disable p) s = disablePart s p"

fun apply_toggles :: "toggle list \<Rightarrow> ('id, 'key) KWayPriorityQueue \<Rightarrow> ('id, 'key) KWayPriorityQueue option" where
  "apply_toggles [] s = Some s"
| "apply_toggles (t # ts) s = (case apply_toggle t s of None \<Rightarrow> None | Some s' \<Rightarrow> apply_toggles ts s')"

text \<open>
  The operations of the queue that change it, and the states reached by them from a fresh
  queue. \<open>DeleteMax r\<close> is a call of \<open>deleteMax\<close> in which the random number is \<open>r\<close>; the
  first parameter of \<open>apply_op\<close> is the template parameter \<open>UseRandomTieBreaking\<close>.
\<close>

datatype ('id, 'key) pq_op =
    Insert 'id nat 'key
  | DeleteMax nat
  | DeleteMaxFromPartition nat
  | Remove 'id nat
  | EnablePart nat
  | DisablePart nat
  | UpdateKey 'id nat 'key

fun apply_op ::
  "bool \<Rightarrow> 'key \<Rightarrow> 'key \<Rightarrow> ('id, 'key) pq_op \<Rightarrow> ('id, 'key::linorder) KWayPriorityQueue
     \<Rightarrow> ('id, 'key) KWayPriorityQueue option" where
  "apply_op rtb kmin kmax (Insert v p key) s = insert_pq s v p key"
| "apply_op rtb kmin kmax (DeleteMax r) s = map_option snd (deleteMax rtb r kmin kmax s)"
| "apply_op rtb kmin kmax (DeleteMaxFromPartition p) s = map_option snd (deleteMaxFromPartition kmax s p)"
| "apply_op rtb kmin kmax (Remove v p) s = remove_pq s v p"
| "apply_op rtb kmin kmax (EnablePart p) s = enablePart s p"
| "apply_op rtb kmin kmax (DisablePart p) s = disablePart s p"
| "apply_op rtb kmin kmax (UpdateKey v p key) s = updateKey s v p key"

inductive reachable :: "bool \<Rightarrow> 'key \<Rightarrow> 'key \<Rightarrow> ('id, 'key::linorder) KWayPriorityQueue \<Rightarrow> bool"
  for rtb kmin kmax where
    init: "k < kInvalidPart \<Longrightarrow> reachable rtb kmin kmax (initialize k)"
  | step: "reachable rtb kmin kmax s \<Longrightarrow> apply_op rtb kmin kmax op s = Some s' \<Longrightarrow>
           reachable rtb kmin kmax s'"

text \<open>
  The part of \<open>deleteMax\<close> that follows the choice of \<open>max_index\<close>, as a function of the
  index; the proofs treat the two ways to choose the index apart from it.
\<close>

definition deleteMaxAt ::
  "'key \<Rightarrow> nat \<Rightarrow> ('id, 'key::linorder) KWayPriorityQueue
     \<Rightarrow> (('id \<times> 'key \<times> nat) \<times> ('id, 'key) KWayPriorityQueue) option" where
  "deleteMaxAt kmax max_index s =
     (if \<not> max_index < num_enabled_pqs s \<or> \<not> max_index < length (queues s) \<or>
         \<not> max_index < length (mapping s) then None
      else do {
         let max_part = part_at (mapping s) max_index;
         (max_id, max_key) \<leftarrow> heap_top (queues s ! max_index);
         if \<not> max_part < length (queues s) \<or> \<not> max_part < length (mapping s) \<or>
            max_part = kInvalidPart \<or> max_key = kmax \<or> max_index = kInvalidIndex \<or>
            \<not> index_of (mapping s) max_part < length (mapping s) \<or>
            part_at (mapping s) (index_of (mapping s) max_part) \<noteq> max_part then None
         else do {
           q \<leftarrow> pop (queues s ! max_index);
           let s1 = s\<lparr>queues := (queues s)[max_index := q]\<rparr>;
           s2 \<leftarrow> (if queues s1 ! max_index = [] then retireEnabledPart s1 max_part else Some s1);
           Some ((max_id, max_key, max_part), s2\<lparr>num_entries := num_entries s2 - 1\<rparr>)
         }
       })"

text \<open>A sequence of operations, applied from left to right.\<close>

fun apply_ops ::
  "bool \<Rightarrow> 'key \<Rightarrow> 'key \<Rightarrow> ('id, 'key) pq_op list \<Rightarrow> ('id, 'key::linorder) KWayPriorityQueue
     \<Rightarrow> ('id, 'key) KWayPriorityQueue option" where
  "apply_ops rtb kmin kmax [] s = Some s"
| "apply_ops rtb kmin kmax (op # ops) s =
     (case apply_op rtb kmin kmax op s of None \<Rightarrow> None | Some s' \<Rightarrow> apply_ops rtb kmin kmax ops s')"

text \<open>
  Three states of a queue over two parts with ids in \<open>nat\<close> and 32-bit gains as keys
  (\<open>MetaKey::min() = -2147483648\<close>, \<open>MetaKey::max() = 2147483647\<close>): after
  \<open>insert(7, 1, 5)\<close>; after \<open>insert(0, 1, MetaKey::min())\<close> and \<open>enablePart(1)\<close>; after
  \<open>insert(0, 1, -1)\<close>, \<open>insert(1, 0, 3)\<close>, \<open>enablePart(1)\<close> and \<open>enablePart(0)\<close>.
\<close>

definition ex_one_entry :: "(nat, int) KWayPriorityQueue" where
  "ex_one_entry =
     \<lparr>queues = [[(7, 5)], []],
      mapping = [\<lparr>part = 1, index = kInvalidIndex\<rparr>, \<lparr>part = kInvalidPart, index = 0\<rparr>,
                 \<lparr>part = kInvalidPart, index = kInvalidIndex\<rparr>],
      num_entries = 1, num_nonempty_pqs = 1, num_enabled_pqs = 0, ties = [0, 0]\<rparr>"

definition ex_min_key :: "(nat, int) KWayPriorityQueue" where
  "ex_min_key =
     \<lparr>queues = [[(0, - 2147483648)], []],
      mapping = [\<lparr>part = 1, index = kInvalidIndex\<rparr>, \<lparr>part = kInvalidPart, index = 0\<rparr>,
                 \<lparr>part = kInvalidPart, index = kInvalidIndex\<rparr>],
      num_entries = 1, num_nonempty_pqs = 1, num_enabled_pqs = 1, ties = [0, 0]\<rparr>"

definition ex_two_enabled :: "(nat, int) KWayPriorityQueue" where
  "ex_two_enabled =
     \<lparr>queues = [[(0, - 1)], [(1, 3)]],
      mapping = [\<lparr>part = 1, index = 1\<rparr>, \<lparr>part = 0, index = 0\<rparr>,
                 \<lparr>part = kInvalidPart, index = kInvalidIndex\<rparr>],
      num_entries = 2, num_nonempty_pqs = 2, num_enabled_pqs = 2, ties = [0, 0]\<rparr>"

text \<open>
  Two states of a queue over three parts: after \<open>insert(0, 0, 1)\<close>, \<open>insert(1, 1, 5)\<close>,
  \<open>insert(2, 2, 5)\<close> and the enabling of the three parts, and after \<open>remove(0, 0)\<close> in
  this state.
\<close>

definition ex_three_enabled :: "(nat, int) KWayPriorityQueue" where
  "ex_three_enabled =
     \<lparr>queues = [[(0, 1)], [(1, 5)], [(2, 5)]],
      mapping = [\<lparr>part = 0, index = 0\<rparr>, \<lparr>part = 1, index = 1\<rparr>, \<lparr>part = 2, index = 2\<rparr>,
                 \<lparr>part = kInvalidPart, index = kInvalidIndex\<rparr>],
      num_entries = 3, num_nonempty_pqs = 3, num_enabled_pqs = 3, ties = [0, 0, 0]\<rparr>"

definition ex_three_removed :: "(nat, int) KWayPriorityQueue" where
  "ex_three_removed =
     \<lparr>queues = [[(2, 5)], [(1, 5)], []],
      mapping = [\<lparr>part = 2, index = kInvalidIndex\<rparr>, \<lparr>part = 1, index = 1\<rparr>,
                 \<lparr>part = kInvalidPart, index = 0\<rparr>,
                 \<lparr>part = kInvalidPart, index = kInvalidIndex\<rparr>],
      num_entries = 2, num_nonempty_pqs = 2, num_enabled_pqs = 2, ties = [0, 0, 0]\<rparr>"

section \<open>The 2-way FM refiner: gains and their update\<close>

text \<open>
  Modelled from the spec: the classes \<open>Hypergraph\<close> (\<open>lib/definitions.h\<close>) and
  \<open>TwoWayFMRefiner\<close> (\<open>partition/refinement/TwoWayFMRefiner.h\<close>) are not among the
  sources; only the test of the refiner is. The hypergraph is the one of section 3 of the
  spec, as far as the refiner reads it: the pins of the hyperedges, given as the test gives
  them to the constructor (an index vector with a sentinel and the vector of all pins), the
  hyperedge weights (1 when none are given), and the block of every vertex, \<open>None\<close> while
  it is unassigned.
\<close>

record PinHypergraph =
  index_vector :: "nat list"
  edge_vector :: "nat list"
  edge_weights :: "int list"
  node_part :: "nat option list"

definition make_hypergraph :: "nat \<Rightarrow> nat \<Rightarrow> nat list \<Rightarrow> nat list \<Rightarrow> PinHypergraph" where
  "make_hypergraph n m iv ev =
     \<lparr>index_vector = iv, edge_vector = ev, edge_weights = replicate m 1,
      node_part = replicate n None\<rparr>"

definition numEdges :: "PinHypergraph \<Rightarrow> nat" where
  "numEdges h = length (edge_weights h)"

definition pins :: "PinHypergraph \<Rightarrow> nat \<Rightarrow> nat list" where
  "pins h e =
     take (index_vector h ! (e + 1) - index_vector h ! e) (drop (index_vector h ! e) (edge_vector h))"

definition incidentEdges :: "PinHypergraph \<Rightarrow> nat \<Rightarrow> nat list" where
  "incidentEdges h v = filter (\<lambda>e. v \<in> set (pins h e)) [0..<numEdges h]"

definition setNodePart :: "PinHypergraph \<Rightarrow> nat \<Rightarrow> nat \<Rightarrow> PinHypergraph" where
  "setNodePart h v p = h\<lparr>node_part := (node_part h)[v := Some p]\<rparr>"

definition changeNodePart_pins :: "PinHypergraph \<Rightarrow> nat \<Rightarrow> nat \<Rightarrow> nat \<Rightarrow> PinHypergraph option" where
  "changeNodePart_pins h v from to =
     (if v < length (node_part h) \<and> node_part h ! v = Some from
      then Some (h\<lparr>node_part := (node_part h)[v := Some to]\<rparr>) else None)"

text \<open>
  Modelled from the spec: \<open>pinCountInPart(e, b)\<close> is the number of pins of \<open>e\<close> in block
  \<open>b\<close>; the connectivity of a hyperedge is the number of blocks it touches (of the two
  blocks of a 2-way partition), and the cut objective is the weight of the hyperedges that
  touch more than one block.
\<close>

definition pinCountInPart :: "PinHypergraph \<Rightarrow> nat \<Rightarrow> nat \<Rightarrow> nat" where
  "pinCountInPart h e b = length (filter (\<lambda>v. node_part h ! v = Some b) (pins h e))"

definition connectivity :: "PinHypergraph \<Rightarrow> nat \<Rightarrow> nat" where
  "connectivity h e = length (filter (\<lambda>b. 0 < pinCountInPart h e b) [0..<2])"

definition cut_objective :: "PinHypergraph \<Rightarrow> int" where
  "cut_objective h =
     sum_list (map (\<lambda>e. if 1 < connectivity h e then edge_weights h ! e else 0) [0..<numEdges h])"

text \<open>
  Modelled from the spec: in 2-way FM a vertex has one possible move, to the other block,
  and the refiner moves the vertices that most improve the objective: the gain of a vertex
  is the decrease of the cut objective when the vertex changes its block.
\<close>

definition computeGain :: "PinHypergraph \<Rightarrow> nat \<Rightarrow> int option" where
  "computeGain h v =
     (if \<not> v < length (node_part h) then None
      else case node_part h ! v of
             None \<Rightarrow> None
           | Some from \<Rightarrow>
               (case changeNodePart_pins h v from (1 - from) of
                  None \<Rightarrow> None
                | Some h' \<Rightarrow> Some (cut_objective h - cut_objective h')))"

text \<open>
  Modelled from the spec: the part of the refiner that the gain update uses, namely the
  hypergraph, the priority queue \<open>_pq\<close> (the k-way queue above, with vertices as ids, gains
  as keys and the target block as part) and the flags \<open>_marked\<close> of the locked vertices.
\<close>

record TwoWayFMRefiner =
  fm_hg :: PinHypergraph
  fm_pq :: "(nat, int) KWayPriorityQueue"
  fm_marked :: "bool list"

text \<open>
  Modelled from the spec: the delta-gain update rules. When a vertex has moved from block
  \<open>from\<close> to block \<open>to\<close> through hyperedge \<open>e\<close>, the gain of a pin \<open>u\<close> of \<open>e\<close> changes by
  the weight of \<open>e\<close> for each of the transitions of the pin counts: the count of \<open>from\<close>
  went from 2 to 1 (the last pin left in \<open>from\<close> gains), or from 1 to 0 (the pins in \<open>to\<close>
  lose); symmetrically the count of \<open>to\<close> went from 0 to 1 (the pins in \<open>from\<close> gain), or
  from 1 to 2 (the pin that was alone in \<open>to\<close> loses). The pin counts are read after the
  move. A hyperedge of size 2 falls under two of these transitions at once. With these
  amounts the old gain plus the deltas is the recomputed gain, which is what the spec
  demands of the update (lemma \<open>computeGain_after_move\<close> below).
\<close>

definition deltaGain :: "PinHypergraph \<Rightarrow> nat \<Rightarrow> nat \<Rightarrow> nat \<Rightarrow> nat \<Rightarrow> int" where
  "deltaGain h e u from to =
     (let w = edge_weights h ! e;
          after_from = pinCountInPart h e from;
          after_to = pinCountInPart h e to
      in if node_part h ! u = Some from
         then (if after_from = 1 then w else 0) + (if after_to = 1 then w else 0)
         else if node_part h ! u = Some to
         then - (if after_from = 0 then w else 0) - (if after_to = 2 then w else 0)
         else 0)"

text \<open>
  Modelled from the spec: \<open>updateNeighbours(moved, from, to, max_allowed_part_weight)\<close>
  goes through the hyperedges of the moved vertex and through their pins, and updates the
  key of every unlocked pin that is in the queue by the delta of this hyperedge; locked
  (marked) vertices, the moved one among them, are skipped. The activation of vertices that
  are not in the queue is a separate step of the refiner and is not part of this update.
\<close>

definition updatePin ::
  "PinHypergraph \<Rightarrow> bool list \<Rightarrow> nat \<Rightarrow> nat \<Rightarrow> nat \<Rightarrow> (nat, int) KWayPriorityQueue \<Rightarrow> nat
     \<Rightarrow> (nat, int) KWayPriorityQueue option" where
  "updatePin h marked e from to q u =
     (if \<not> u < length marked \<or> \<not> u < length (node_part h) then None
      else if marked ! u then Some q
      else case node_part h ! u of
             None \<Rightarrow> Some q
           | Some b \<Rightarrow>
               if contains_pq q u (1 - b)
               then (case key_pq q u (1 - b) of
                       None \<Rightarrow> None
                     | Some g \<Rightarrow> updateKey q u (1 - b) (g + deltaGain h e u from to))
               else Some q)"

fun foldM :: "('a \<Rightarrow> 'b \<Rightarrow> 'a option) \<Rightarrow> 'a \<Rightarrow> 'b list \<Rightarrow> 'a option" where
  "foldM f a [] = Some a"
| "foldM f a (x # xs) = (case f a x of None \<Rightarrow> None | Some a' \<Rightarrow> foldM f a' xs)"

definition updateNeighbours ::
  "TwoWayFMRefiner \<Rightarrow> nat \<Rightarrow> nat \<Rightarrow> nat \<Rightarrow> int \<Rightarrow> TwoWayFMRefiner option" where
  "updateNeighbours r moved from to max_allowed_part_weight =
     map_option (\<lambda>q. r\<lparr>fm_pq := q\<rparr>)
       (foldM (\<lambda>q e. foldM (updatePin (fm_hg r) (fm_marked r) e from to) q (pins (fm_hg r) e))
          (fm_pq r) (incidentEdges (fm_hg r) moved))"

text \<open>
  The share of one hyperedge in the gain of a vertex, used to compare the deltas with the
  recomputed gain.
\<close>

definition edgeGain :: "PinHypergraph \<Rightarrow> nat \<Rightarrow> nat \<Rightarrow> int" where
  "edgeGain h e u =
     (case node_part h ! u of
        None \<Rightarrow> 0
      | Some b \<Rightarrow>
          edge_weights h ! e *
            ((if 1 < connectivity h e then 1 else 0) -
             (if 1 < connectivity (h\<lparr>node_part := (node_part h)[u := Some (1 - b)]\<rparr>) e then 1 else 0)))"

text \<open>
  The test \<open>RespectsPositiveGainUpdateSpecialCaseForHyperedgesOfSize2\<close>: two vertices in
  block 0 and the hyperedge \<open>{0, 1}\<close>; both vertices are inserted for block 1 with their
  computed gains and block 1 is enabled; then vertex 1 is moved to block 1 and marked, and
  \<open>updateNeighbours(1, 0, 1, 42)\<close> is called.
\<close>

definition ex_size2_hypergraph :: PinHypergraph where
  "ex_size2_hypergraph = setNodePart (setNodePart (make_hypergraph 2 1 [0, 2] [0, 1]) 0 0) 1 0"

definition ex_size2_before :: "TwoWayFMRefiner option" where
  "ex_size2_before =
     do {
       g0 \<leftarrow> computeGain ex_size2_hypergraph 0;
       g1 \<leftarrow> computeGain ex_size2_hypergraph 1;
       q1 \<leftarrow> insert_pq (initialize 2) 0 1 g0;
       q2 \<leftarrow> insert_pq q1 1 1 g1;
       q3 \<leftarrow> enablePart q2 1;
       Some \<lparr>fm_hg = ex_size2_hypergraph, fm_pq = q3, fm_marked = [False, False]\<rparr>
     }"

definition ex_size2_after :: "TwoWayFMRefiner option" where
  "ex_size2_after =
     do {
       r \<leftarrow> ex_size2_before;
       h \<leftarrow> changeNodePart_pins (fm_hg r) 1 0 1;
       updateNeighbours (r\<lparr>fm_hg := h, fm_marked := (fm_marked r)[1 := True]\<rparr>) 1 0 1 42
     }"

section \<open>Theorems\<close>

text \<open>
  C8. If the configuration asks for v-cycles (\<open>vcycles > 0\<close>) in recursive-bisection mode,
  \<open>main\<close> ends with a non-zero exit status (also non-zero in the eight bits a parent process
  sees) and none of its events before the exit does partitioning work; with \<open>vcycles = 0\<close> or
  in direct k-way mode the check does not reject: no error is printed and \<open>main\<close> goes on to
  the partitioning loop.
\<close>

theorem main_vcycle_check:
  "(0 < global_search_iterations c \<and> mode c = recursive_bisection \<longrightarrow>
      snd (main c) \<noteq> 0 \<and> snd (main c) mod 256 \<noteq> 0 \<and>
      set (fst (main c)) \<inter> partitioning_work = {}) \<and>
   (global_search_iterations c = 0 \<or> mode c = direct_kway \<longrightarrow>
      (\<forall>msg. PrintError msg \<notin> set (fst (main c))) \<and>
      PartitionLoop \<in> set (fst (main c)) \<and> snd (main c) = 0)"
  by (auto simp: main_def partitioning_work_def Let_def word_greater_zero_iff)

theorem main_vcycle_check_witness:
  "(let c = \<lparr>global_search_iterations = 3, mode = recursive_bisection,
             quiet_mode = False, sp_process_output = False\<rparr>
    in 0 < global_search_iterations c \<and> mode c = recursive_bisection \<and>
       main c = ([PrintBanner,
                  PrintError ''V-Cycles are not supported in recursive bisection mode.''], - 1)) \<and>
   (let c = \<lparr>global_search_iterations = 3, mode = direct_kway,
             quiet_mode = True, sp_process_output = False\<rparr>
    in (global_search_iterations c = 0 \<or> mode c = direct_kway) \<and>
       PartitionLoop \<in> set (fst (main c)) \<and> snd (main c) = 0)"
  using main_vcycle_check [of "\<lparr>global_search_iterations = 3, mode = recursive_bisection,
             quiet_mode = False, sp_process_output = False\<rparr>"]
    main_vcycle_check [of "\<lparr>global_search_iterations = 3, mode = direct_kway,
             quiet_mode = True, sp_process_output = False\<rparr>"]
  by (simp add: main_def Let_def)

subsection \<open>Doubles\<close>

lemma DBL_MAX_large: "2 ^ 971 \<le> DBL_MAX"
proof -
  have "(1::real) * 2 ^ 971 \<le> (2 ^ 53 - 1) * 2 ^ 971"
    by (rule mult_right_mono) simp_all
  then show ?thesis by (simp add: DBL_MAX_def)
qed

lemma DBL_MAX_pos: "0 < DBL_MAX"
  using DBL_MAX_large by (rule less_le_trans [rotated]) simp

lemma double_twice_small:
  assumes "- (2 ^ 64) \<le> x" "x \<le> 2 ^ 64"
  shows "double_twice (Finite x) = Finite (x * 2)"
proof -
  have "(2::real) ^ 65 \<le> 2 ^ 971" by (rule power_increasing) simp_all
  with DBL_MAX_large have "2 ^ 65 \<le> DBL_MAX" by simp
  with assms show ?thesis by simp
qed

lemma double_twice_numeral [simp]:
  "numeral n \<le> (2 ^ 64 :: real) \<Longrightarrow> double_twice (Finite (numeral n)) = Finite (numeral n * 2)"
  by (rule double_twice_small) simp_all

lemma double_twice_largest: "double_twice (Finite DBL_MAX) = PlusInfinity"
  using DBL_MAX_pos by simp

declare double_twice.simps(1) [simp del]

subsection \<open>The flow refiner: moves, rollback and the decision of a pass\<close>

lemma moveHypernode_Some:
  "moveHypernode h hn to = Some h' \<Longrightarrow>
     hn < length (partID h) \<and> partID h ! hn \<noteq> - 1 \<and> h' = h\<lparr>partID := (partID h)[hn := to]\<rparr>"
  by (auto simp: moveHypernode_def changeNodePart_def Let_def split: if_splits)

lemma storeAndMove_Some:
  "storeAndMove d hns (h, orig) = Some (h1, orig1) \<Longrightarrow> distinct hns \<Longrightarrow>
     length (partID h1) = length (partID h) \<and> length orig1 = length orig \<and>
     currentNumNodes h1 = currentNumNodes h \<and> initialNumNodes h1 = initialNumNodes h \<and>
     (\<forall>i. partID h1 ! i = (if i \<in> set hns then d else partID h ! i)) \<and>
     (\<forall>i. orig1 ! i = (if i \<in> set hns then partID h ! i else orig ! i)) \<and>
     (\<forall>i\<in>set hns. i < length orig \<and> i < length (partID h))"
proof (induction hns arbitrary: h orig)
  case Nil
  then show ?case by simp
next
  case (Cons hn hns)
  from Cons.prems(1) obtain h' where
    rng: "hn < length orig" "hn < length (partID h)" and
    mv: "moveHypernode h hn d = Some h'" and
    rest: "storeAndMove d hns (h', orig[hn := partID h ! hn]) = Some (h1, orig1)"
    by (auto split: if_splits option.splits)
  from moveHypernode_Some [OF mv] have h': "h' = h\<lparr>partID := (partID h)[hn := d]\<rparr>" by simp
  from Cons.prems(2) have d: "distinct hns" "hn \<notin> set hns" by auto
  from Cons.IH [OF rest d(1)] show ?case
    using rng d(2) by (auto simp: h' nth_list_update)
qed

lemma assignMinCut_Some:
  "assignMinCut f hns h = Some h2 \<Longrightarrow> distinct hns \<Longrightarrow>
     length (partID h2) = length (partID h) \<and>
     currentNumNodes h2 = currentNumNodes h \<and> initialNumNodes h2 = initialNumNodes h \<and>
     (\<forall>i. partID h2 ! i = (if i \<in> set hns then f i else partID h ! i))"
proof (induction hns arbitrary: h)
  case Nil
  then show ?case by simp
next
  case (Cons hn hns)
  from Cons.prems(1) obtain h' where
    mv: "moveHypernode h hn (f hn) = Some h'" and
    rest: "assignMinCut f hns h' = Some h2"
    by (auto split: option.splits)
  from moveHypernode_Some [OF mv] have h': "h' = h\<lparr>partID := (partID h)[hn := f hn]\<rparr>"
    and rng: "hn < length (partID h)" by simp_all
  from Cons.prems(2) have d: "distinct hns" "hn \<notin> set hns" by auto
  from Cons.IH [OF rest d(1)] show ?case
    using rng d(2) by (auto simp: h' nth_list_update)
qed

lemma rollback_Some:
  "rollback b hns (h, orig) = Some (h3, orig3) \<Longrightarrow> distinct hns \<Longrightarrow>
     length (partID h3) = length (partID h) \<and> length orig3 = length orig \<and>
     currentNumNodes h3 = currentNumNodes h \<and> initialNumNodes h3 = initialNumNodes h \<and>
     (\<forall>i. partID h3 ! i = (if i \<in> set hns then orig ! i else partID h ! i)) \<and>
     (\<forall>i. orig3 ! i = (if b \<and> i \<in> set hns then partID h ! i else orig ! i))"
proof (induction hns arbitrary: h orig)
  case Nil
  then show ?case by simp
next
  case (Cons hn hns)
  from Cons.prems(1) obtain h' where
    rng: "hn < length orig" "hn < length (partID h)" and
    mv: "moveHypernode h hn (orig ! hn) = Some h'" and
    rest: "rollback b hns (h', if b then orig[hn := partID h ! hn] else orig) = Some (h3, orig3)"
    by (auto simp: Let_def split: if_splits option.splits)
  from moveHypernode_Some [OF mv] have h': "h' = h\<lparr>partID := (partID h)[hn := orig ! hn]\<rparr>" by simp
  from Cons.prems(2) have d: "distinct hns" "hn \<notin> set hns" by auto
  from Cons.IH [OF rest d(1)] show ?case
    using rng d(2) by (auto simp: h' nth_list_update)
qed

lemma performMoves_Some:
  "performMoves hns orig h = Some h4 \<Longrightarrow>
     length (partID h4) = length (partID h) \<and>
     currentNumNodes h4 = currentNumNodes h \<and> initialNumNodes h4 = initialNumNodes h \<and>
     (\<forall>i. partID h4 ! i = (if i \<in> set hns then orig ! i else partID h ! i))"
proof (induction hns arbitrary: h)
  case Nil
  then show ?case by simp
next
  case (Cons hn hns)
  from Cons.prems(1) have rng: "hn < length orig" "hn < length (partID h)"
    by (auto split: if_splits)
  have same: "h\<lparr>partID := (partID h)[hn := orig ! hn]\<rparr> = h" if "partID h ! hn = orig ! hn"
    using that [symmetric] by simp
  from Cons.prems(1) rng
  have rest: "performMoves hns orig (h\<lparr>partID := (partID h)[hn := orig ! hn]\<rparr>) = Some h4"
    by (cases "partID h ! hn = orig ! hn")
      (auto simp: Let_def changeNodePart_def same split: option.splits)
  from Cons.IH [OF rest] show ?case
    using rng by (auto simp: nth_list_update)
qed

lemma decideAndApply_result:
  assumes it: "decideAndApply ctx p a1 improvement st c h1 orig1 = (e, r)"
    and r: "r \<noteq> Failed"
  shows "\<exists>h2 orig2 h3.
      rollback (acceptsAssignment ctx p (best_metrics st) c) (hypernodes p) (h1, orig1) = Some (h2, orig2) \<and>
      (if acceptsAssignment ctx p (best_metrics st) c then performMoves (hypernodes p) orig2 h2 else Some h2) = Some h3 \<and>
      e = (a1, if acceptsAssignment ctx p (best_metrics st) c then Improved else NotImproved (cut_flow_network_before p = c)) \<and>
      r = (if use_adaptive_alpha_stopping_rule ctx \<and> \<not> (improvement \<or> acceptsAssignment ctx p (best_metrics st) c) \<and>
              cut_flow_network_before p = c then Break else Continue)
           (if acceptsAssignment ctx p (best_metrics st) c then raisedAlpha ctx a1 else a1)
           (improvement \<or> acceptsAssignment ctx p (best_metrics st) c)
           \<lparr>hg = h3, originalPartID = orig2,
            best_metrics = (if acceptsAssignment ctx p (best_metrics st) c
              then (updateMetric (getMetric (objective ctx) (best_metrics st) - (cut_flow_network_before p - c))
                    (objective ctx) (best_metrics st))\<lparr>imbalance := imbalance_after p\<rparr>
              else best_metrics st)\<rparr>"
proof -
  define acc where "acc = acceptsAssignment ctx p (best_metrics st) c"
  show ?thesis
    using it r unfolding decideAndApply_def Let_def acc_def [symmetric]
    unfolding acceptsAssignment_def [unfolded Let_def, symmetric] acc_def [symmetric]
      raisedAlpha_def [symmetric]
    by (cases acc) (auto split: if_splits option.splits prod.splits)
qed

lemma decideAndApply_Return:
  "decideAndApply ctx p a1 improvement st c h1 orig1 \<noteq> (e, Return b s)"
proof
  assume a: "decideAndApply ctx p a1 improvement st c h1 orig1 = (e, Return b s)"
  from decideAndApply_result [OF a] show False by (auto split: if_splits)
qed

lemma decideAndApply_Break:
  assumes a: "decideAndApply ctx p a1 improvement st c h1 orig1 = (e, Break a' i' s')"
  shows "fst e = a1 \<and> snd e = NotImproved True \<and> use_adaptive_alpha_stopping_rule ctx \<and>
     \<not> improvement \<and> \<not> i'"
  using decideAndApply_result [OF a] by (auto split: if_splits)

lemma decideAndApply_Continue:
  assumes a: "decideAndApply ctx p a1 improvement st c h1 orig1 = (e, Continue a' i' s')"
  shows "fst e = a1 \<and>
     ((snd e = Improved \<and> a' = raisedAlpha ctx a1 \<and> i') \<or>
      (\<exists>c. snd e = NotImproved c \<and> a' = a1 \<and> i' = improvement \<and>
           \<not> (use_adaptive_alpha_stopping_rule ctx \<and> \<not> improvement \<and> c)))"
  using decideAndApply_result [OF a] by (auto split: if_splits)

lemma flowIteration_Return:
  "flowIteration ctx b0 b1 p alpha0 improvement st = (e, Return b s) \<Longrightarrow>
     e = (double_half alpha0, SmallCutSkip) \<and> \<not> b \<and> s = st \<and>
     ignore_small_hyperedge_cut ctx \<and> sint (sum_list (map snd (blockPairCutHyperedges p))) \<le> 10 \<and>
     \<not> isRefinementOnLastLevel (hg st)"
  unfolding flowIteration_def Let_def
  by (simp add: decideAndApply_Return split: if_splits option.splits prod.splits)

lemma flowIteration_Break:
  "flowIteration ctx b0 b1 p alpha0 improvement st = (e, Break a' i' s') \<Longrightarrow>
     fst e = double_half alpha0 \<and> i' = improvement \<and>
     (snd e = CutIsZero \<or> snd e = TrivialCut \<or>
      (snd e = NotImproved True \<and> use_adaptive_alpha_stopping_rule ctx \<and> \<not> improvement))"
  unfolding flowIteration_def Let_def
  by (auto split: if_splits option.splits prod.splits dest: decideAndApply_Break)

lemma flowIteration_Continue:
  "flowIteration ctx b0 b1 p alpha0 improvement st = (e, Continue a' i' s') \<Longrightarrow>
     fst e = double_half alpha0 \<and>
     ((snd e = Improved \<and> a' = raisedAlpha ctx (fst e) \<and> i') \<or>
      (\<exists>c. snd e = NotImproved c \<and> a' = fst e \<and> i' = improvement \<and>
           \<not> (use_adaptive_alpha_stopping_rule ctx \<and> \<not> improvement \<and> c)))"
  unfolding flowIteration_def Let_def
  by (simp split: if_splits option.splits prod.splits) (auto dest!: decideAndApply_Continue)

lemma adaptiveFlowIterations_schedule:
  assumes "adaptiveFlowIterations ctx b0 b1 ps alpha0 imp st = Some (b, st', tr)"
  shows "tr \<noteq> [] \<and> length tr \<le> length ps \<and> fst (hd tr) = double_half alpha0 \<and>
    (\<forall>i<length tr.
       (snd (tr ! i) = Improved \<longrightarrow>
          (Suc i < length tr \<longleftrightarrow> exceeds_one (raisedAlpha ctx (fst (tr ! i)))) \<and>
          (Suc i < length tr \<longrightarrow> fst (tr ! Suc i) = double_half (raisedAlpha ctx (fst (tr ! i))))) \<and>
       (\<forall>c. snd (tr ! i) = NotImproved c \<longrightarrow>
          (Suc i < length tr \<longleftrightarrow>
             exceeds_one (fst (tr ! i)) \<and>
             \<not> (use_adaptive_alpha_stopping_rule ctx \<and> c \<and> \<not> imp \<and>
                (\<forall>j<i. snd (tr ! j) \<noteq> Improved))) \<and>
          (Suc i < length tr \<longrightarrow> fst (tr ! Suc i) = double_half (fst (tr ! i)))) \<and>
       (snd (tr ! i) \<in> {SmallCutSkip, CutIsZero, TrivialCut} \<longrightarrow> Suc i = length tr))"
  using assms
proof (induction ps arbitrary: alpha0 imp st b st' tr)
  case Nil
  then show ?case by simp
next
  case (Cons p ps)
  obtain e r where it: "flowIteration ctx b0 b1 p alpha0 imp st = (e, r)"
    by (cases "flowIteration ctx b0 b1 p alpha0 imp st")
  show ?case
  proof (cases r)
    case Failed
    with Cons.prems it show ?thesis by simp
  next
    case (Return b' s)
    with Cons.prems it have "tr = [e]" by simp
    with flowIteration_Return [OF it [unfolded Return]] show ?thesis by simp
  next
    case (Break a' i' s)
    with Cons.prems it have "tr = [e]" by simp
    with flowIteration_Break [OF it [unfolded Break]] show ?thesis by auto
  next
    case (Continue a' i' s)
    note step = flowIteration_Continue [OF it [unfolded Continue]]
    show ?thesis
    proof (cases "exceeds_one a'")
      case False
      with Cons.prems it Continue have "tr = [e]" by simp
      with step False show ?thesis by auto
    next
      case True
      with Cons.prems it Continue obtain tr' where
        rec: "adaptiveFlowIterations ctx b0 b1 ps a' i' s = Some (b, st', tr')" and
        tr: "tr = e # tr'"
        by (auto split: option.splits)
      note IH = Cons.IH [OF rec]
      from IH have ne: "tr' \<noteq> []" and len: "length tr' \<le> length ps"
        and hd': "fst (hd tr') = double_half a'" by simp_all
      from ne have hd0: "tr' ! 0 = hd tr'" by (simp add: hd_conv_nth)
      from ne have l0: "Suc 0 < length tr" by (simp add: tr)
      have A: "tr \<noteq> [] \<and> length tr \<le> length (p # ps) \<and> fst (hd tr) = double_half alpha0"
        using step tr len by simp
      have B: "(snd (tr ! i) = Improved \<longrightarrow>
          (Suc i < length tr \<longleftrightarrow> exceeds_one (raisedAlpha ctx (fst (tr ! i)))) \<and>
          (Suc i < length tr \<longrightarrow> fst (tr ! Suc i) = double_half (raisedAlpha ctx (fst (tr ! i)))))"
        if "i < length tr" for i
      proof (cases i)
        case 0
        with step hd' hd0 tr True l0 show ?thesis by auto
      next
        case (Suc j)
        with that tr IH show ?thesis by simp
      qed
      have C: "(\<forall>c. snd (tr ! i) = NotImproved c \<longrightarrow>
          (Suc i < length tr \<longleftrightarrow>
             exceeds_one (fst (tr ! i)) \<and>
             \<not> (use_adaptive_alpha_stopping_rule ctx \<and> c \<and> \<not> imp \<and>
                (\<forall>j<i. snd (tr ! j) \<noteq> Improved))) \<and>
          (Suc i < length tr \<longrightarrow> fst (tr ! Suc i) = double_half (fst (tr ! i))))"
        if "i < length tr" for i
      proof (cases i)
        case 0
        with step hd' hd0 tr True l0 show ?thesis by auto
      next
        case (Suc j)
        with that tr have j: "j < length tr'" by simp
        from IH j have ihj: "\<forall>c. snd (tr' ! j) = NotImproved c \<longrightarrow>
          (Suc j < length tr' \<longleftrightarrow>
             exceeds_one (fst (tr' ! j)) \<and>
             \<not> (use_adaptive_alpha_stopping_rule ctx \<and> c \<and> \<not> i' \<and>
                (\<forall>k<j. snd (tr' ! k) \<noteq> Improved))) \<and>
          (Suc j < length tr' \<longrightarrow> fst (tr' ! Suc j) = double_half (fst (tr' ! j)))"
          by blast
        have all: "(\<forall>k<Suc j. snd (tr ! k) \<noteq> Improved) \<longleftrightarrow>
            snd e \<noteq> Improved \<and> (\<forall>k<j. snd (tr' ! k) \<noteq> Improved)"
          unfolding tr by (simp add: All_less_Suc2)
        have flag: "\<not> imp \<and> snd e \<noteq> Improved \<longleftrightarrow> \<not> i'"
          using step by auto
        from ihj all flag show ?thesis unfolding Suc tr by auto
      qed
      have D: "snd (tr ! i) \<in> {SmallCutSkip, CutIsZero, TrivialCut} \<longrightarrow> Suc i = length tr"
        if "i < length tr" for i
      proof (cases i)
        case 0
        with step tr show ?thesis by auto
      next
        case (Suc j)
        with that tr IH show ?thesis by simp
      qed
      from A B C D show ?thesis by blast
    qed
  qed
qed

subsection \<open>The level of the hypergraph and the label of a pass\<close>












lemmas ex_defs = ex_ctx_def ex_state_def ex_pass_improving_def ex_pass_infeasible_def
  ex_pass_same_cut_def ex_pass_no_cut_def ex_pass_small_cut_def ex_state_coarse_def
  ex_pass_overflow_def ex_ctx_largest_alpha_def

lemmas flow_defs = flowIteration_def decideAndApply_def minimumSTCut_def moveHypernode_def
  changeNodePart_def getMetric_def updateMetric_def isRefinementOnLastLevel_def INFTY_def
  refineImpl_def executeFlow_def double_eq_def raisedAlpha_def

lemma flowIteration_decision:
  assumes it: "flowIteration ctx block0 block1 p alpha0 improvement st = ((a, outcome), r)"
    and st': "result_state r = Some st'"
    and dec: "outcome = Improved \<or> (\<exists>c. outcome = NotImproved c)"
    and dist: "distinct (hypernodes p)"
    and old: "old = getMetric (objective ctx) (best_metrics st)"
    and new: "new = old - (cut_flow_network_before p - maximumFlow p)"
  shows "((new < old \<and> (imbalance_after p \<le> epsilon ctx \<or> imbalance_after p < imbalance (best_metrics st))) \<or>
          (new = old \<and> imbalance_after p < imbalance (best_metrics st)) \<longrightarrow>
            outcome = Improved \<and> partID (hg st') = minCutAssignment p (partID (hg st)) \<and>
            getMetric (objective ctx) (best_metrics st') = new \<and>
            imbalance (best_metrics st') = imbalance_after p) \<and>
         (\<not> ((new < old \<and> (imbalance_after p \<le> epsilon ctx \<or> imbalance_after p < imbalance (best_metrics st))) \<or>
             (new = old \<and> imbalance_after p < imbalance (best_metrics st))) \<longrightarrow>
            outcome \<noteq> Improved \<and> partID (hg st') = partID (hg st) \<and>
            best_metrics st' = best_metrics st)"
proof -
  from st' have nf: "r \<noteq> Failed" by auto
  from it dec nf obtain h1 orig1 where
    ms: "minimumSTCut ctx p block0 block1 (hg st, originalPartID st) = Some (maximumFlow p, h1, orig1)"
    and nontriv: "\<not> isTrivialFlow p"
    and da: "decideAndApply ctx p (double_half alpha0) improvement st (maximumFlow p) h1 orig1 = ((a, outcome), r)"
    by (auto simp: flowIteration_def Let_def minimumSTCut_def split: if_splits option.splits)
  define d where "d = (if use_most_balanced_minimum_cut ctx then block0 else block1)"
  from ms nontriv obtain h0 where
    sm: "storeAndMove d (hypernodes p) (hg st, originalPartID st) = Some (h0, orig1)" and
    am: "assignMinCut (minCutBlock p) (hypernodes p) h0 = Some h1"
    by (auto simp: minimumSTCut_def Let_def d_def split: option.splits)
  note SM = storeAndMove_Some [OF sm dist]
  note AM = assignMinCut_Some [OF am dist]
  define acc where "acc = acceptsAssignment ctx p (best_metrics st) (maximumFlow p)"
  have acc_iff: "acc \<longleftrightarrow> (new < old \<and> (imbalance_after p \<le> epsilon ctx \<or> imbalance_after p < imbalance (best_metrics st))) \<or>
          (new = old \<and> imbalance_after p < imbalance (best_metrics st))"
    by (simp add: acc_def acceptsAssignment_def Let_def old new)
  from decideAndApply_result [OF da nf] obtain h2 orig2 h3 where
    rb: "rollback acc (hypernodes p) (h1, orig1) = Some (h2, orig2)" and
    pm: "(if acc then performMoves (hypernodes p) orig2 h2 else Some h2) = Some h3" and
    out: "outcome = (if acc then Improved else NotImproved (cut_flow_network_before p = maximumFlow p))" and
    res: "result_state r = Some \<lparr>hg = h3, originalPartID = orig2,
            best_metrics = (if acc
              then (updateMetric (getMetric (objective ctx) (best_metrics st) - (cut_flow_network_before p - maximumFlow p))
                    (objective ctx) (best_metrics st))\<lparr>imbalance := imbalance_after p\<rparr>
              else best_metrics st)\<rparr>"
    unfolding acc_def by (auto split: if_splits)
  note RB = rollback_Some [OF rb dist]
  have "partID h2 ! i = partID (hg st) ! i" for i
  proof -
    from RB have "partID h2 ! i = (if i \<in> set (hypernodes p) then orig1 ! i else partID h1 ! i)"
      by blast
    moreover from SM have "orig1 ! i = (if i \<in> set (hypernodes p) then partID (hg st) ! i else originalPartID st ! i)"
      by blast
    moreover from AM have "partID h1 ! i = (if i \<in> set (hypernodes p) then minCutBlock p i else partID h0 ! i)"
      by blast
    moreover from SM have "partID h0 ! i = (if i \<in> set (hypernodes p) then d else partID (hg st) ! i)"
      by blast
    ultimately show ?thesis by simp
  qed
  moreover have "length (partID h2) = length (partID (hg st))"
    using SM AM RB by simp
  ultimately have restored: "partID h2 = partID (hg st)"
    by (intro nth_equalityI) simp_all
  show ?thesis
  proof (cases acc)
    case False
    with pm res st' have "hg st' = h2" "best_metrics st' = best_metrics st" by auto
    moreover from False out have "outcome \<noteq> Improved" by simp
    ultimately show ?thesis
      unfolding acc_iff [symmetric] using False restored by simp
  next
    case True
    with pm have pm': "performMoves (hypernodes p) orig2 h2 = Some h3" by simp
    note PM = performMoves_Some [OF pm']
    have "partID h3 ! i = (if i \<in> set (hypernodes p) then minCutBlock p i else partID (hg st) ! i)" for i
    proof -
      from PM have "partID h3 ! i = (if i \<in> set (hypernodes p) then orig2 ! i else partID h2 ! i)"
        by blast
      moreover from RB True have "orig2 ! i = (if i \<in> set (hypernodes p) then partID h1 ! i else orig1 ! i)"
        by simp
      moreover from AM have "partID h1 ! i = (if i \<in> set (hypernodes p) then minCutBlock p i else partID h0 ! i)"
        by blast
      moreover note restored
      ultimately show ?thesis by simp
    qed
    moreover have "length (partID h3) = length (partID (hg st))"
      using SM AM RB PM by simp
    ultimately have "partID h3 = minCutAssignment p (partID (hg st))"
      by (intro nth_equalityI) (simp_all add: minCutAssignment_def)
    moreover from True res st' have "hg st' = h3" and
      bm: "best_metrics st' = (updateMetric new (objective ctx) (best_metrics st))\<lparr>imbalance := imbalance_after p\<rparr>"
      by (auto simp: old new)
    moreover from bm have "getMetric (objective ctx) (best_metrics st') = new"
      "imbalance (best_metrics st') = imbalance_after p"
      by (cases "objective ctx"; simp add: getMetric_def updateMetric_def)+
    moreover from True out have "outcome = Improved" by simp
    ultimately show ?thesis
      unfolding acc_iff [symmetric] using True by simp
  qed
qed

subsection \<open>The flow refiner: decision, alpha schedule and small-cut rule\<close>

text \<open>
  C4 (as amended). In a pass of the two-way flow refiner that reaches the decision, with
  \<open>new\<close> the objective after the most balanced minimum cut and \<open>old\<close> the best recorded
  objective: the new assignment is committed (the hypernodes of the flow network get the
  blocks of the minimum cut, the best metrics are updated) when \<open>new < old\<close> and the new
  partition is feasible (imbalance at most epsilon) or its imbalance is strictly smaller
  than the best recorded one, or when \<open>new = old\<close> and the imbalance is strictly smaller; in
  every other case all moves of the pass are rolled back: the partition and the best
  metrics are as before the pass.
\<close>

theorem flow_pass_commit_or_rollback:
  assumes it: "flowIteration ctx block0 block1 p alpha0 improvement st = ((a, outcome), r)"
    and st': "result_state r = Some st'"
    and dec: "outcome = Improved \<or> (\<exists>c. outcome = NotImproved c)"
    and dist: "distinct (hypernodes p)"
    and old: "old = getMetric (objective ctx) (best_metrics st)"
    and new: "new = old - (cut_flow_network_before p - maximumFlow p)"
  shows "((new < old \<and> (imbalance_after p \<le> epsilon ctx \<or> imbalance_after p < imbalance (best_metrics st))) \<or>
          (new = old \<and> imbalance_after p < imbalance (best_metrics st)) \<longrightarrow>
            outcome = Improved \<and> partID (hg st') = minCutAssignment p (partID (hg st)) \<and>
            getMetric (objective ctx) (best_metrics st') = new \<and>
            imbalance (best_metrics st') = imbalance_after p) \<and>
         (\<not> ((new < old \<and> (imbalance_after p \<le> epsilon ctx \<or> imbalance_after p < imbalance (best_metrics st))) \<or>
             (new = old \<and> imbalance_after p < imbalance (best_metrics st))) \<longrightarrow>
            outcome \<noteq> Improved \<and> partID (hg st') = partID (hg st) \<and>
            best_metrics st' = best_metrics st)"
  by (rule flowIteration_decision [OF it st' dec dist old new])

theorem flow_pass_commit_or_rollback_witness:
  "flowIteration ex_ctx 0 1 ex_pass_improving (Finite 32) False ex_state =
     ((Finite 16, Improved), Continue (Finite 32) True
        \<lparr>hg = \<lparr>partID = [0, 1, 0, 1], currentNumNodes = 4, initialNumNodes = 4\<rparr>,
         originalPartID = [0, 1, 0, 0],
         best_metrics = \<lparr>metric_cut = 15, metric_km1 = 20, imbalance = 0\<rparr>\<rparr>) \<and>
   distinct (hypernodes ex_pass_improving) \<and>
   (15::int) < 20 \<and> imbalance_after ex_pass_improving \<le> epsilon ex_ctx \<and>
   minCutAssignment ex_pass_improving (partID (hg ex_state)) = [0, 1, 0, 1]"
proof -
  have run: "flowIteration ex_ctx 0 1 ex_pass_improving (Finite 32) False ex_state =
     ((Finite 16, Improved), Continue (Finite 32) True
        \<lparr>hg = \<lparr>partID = [0, 1, 0, 1], currentNumNodes = 4, initialNumNodes = 4\<rparr>,
         originalPartID = [0, 1, 0, 0],
         best_metrics = \<lparr>metric_cut = 15, metric_km1 = 20, imbalance = 0\<rparr>\<rparr>)"
    by (simp add: ex_defs flow_defs Let_def)
  have dist: "distinct (hypernodes ex_pass_improving)" by (simp add: ex_defs)
  from flow_pass_commit_or_rollback [OF run _ _ dist refl refl]
  have "minCutAssignment ex_pass_improving (partID (hg ex_state)) = [0, 1, 0, 1]"
    by (simp add: ex_defs getMetric_def)
  with run dist show ?thesis by (simp add: ex_defs)
qed

text \<open>
  The claim as first stated (committed whenever the objective is strictly smaller) fails:
  a pass that lowers the objective from 20 to 15 with an imbalance of 0.5, above epsilon and
  not below the best recorded imbalance 0, is rolled back.
\<close>

theorem flow_pass_smaller_objective_rolled_back:
  "getMetric (objective ex_ctx) (best_metrics ex_state)
     - (cut_flow_network_before ex_pass_infeasible - maximumFlow ex_pass_infeasible)
     < getMetric (objective ex_ctx) (best_metrics ex_state) \<and>
   flowIteration ex_ctx 0 1 ex_pass_infeasible (Finite 32) False ex_state =
     ((Finite 16, NotImproved False), Continue (Finite 16) False (ex_state\<lparr>originalPartID := [0, 0, 1, 0]\<rparr>)) \<and>
   partID (hg (ex_state\<lparr>originalPartID := [0, 0, 1, 0]\<rparr>)) = [0, 0, 1, 1] \<and>
   minCutAssignment ex_pass_infeasible (partID (hg ex_state)) = [0, 1, 0, 1]"
  by (simp add: ex_defs flow_defs minCutAssignment_def Let_def)

lemma double_half_twice:
  assumes "\<forall>x. a = Finite x \<longrightarrow> \<bar>x\<bar> * 2 \<le> DBL_MAX"
  shows "double_half (double_twice a) = a"
proof (cases a)
  case (Finite x)
  with assms have "\<bar>x\<bar> * 2 \<le> DBL_MAX" by simp
  then have "\<not> DBL_MAX < x * 2" "\<not> x * 2 < - DBL_MAX" by (simp_all add: abs_le_iff)
  with Finite show ?thesis by (simp add: double_twice.simps)
qed simp_all

lemma double_half_raisedAlpha:
  assumes "\<bar>x\<bar> * 4 \<le> DBL_MAX"
  shows "double_half (raisedAlpha ctx (Finite x)) =
           (if Finite x = alpha ctx then alpha ctx else Finite (2 * x))"
proof -
  from assms have "\<bar>x\<bar> * 2 \<le> DBL_MAX" by simp
  with assms have a: "\<not> DBL_MAX < x * 2" "\<not> x * 2 < - DBL_MAX"
    "\<not> DBL_MAX < x * 2 * 2" "\<not> x * 2 * 2 < - DBL_MAX" by (simp_all add: abs_le_iff)
  then have t: "double_twice (Finite x) = Finite (x * 2)"
    "double_twice (Finite (x * 2)) = Finite (x * 2 * 2)"
    by (simp_all add: double_twice.simps)
  show ?thesis
  proof (cases "Finite x = alpha ctx")
    case True
    then have "alpha ctx = Finite x" by simp
    then show ?thesis by (simp add: raisedAlpha_def double_eq_def t)
  next
    case False
    then show ?thesis by (simp add: raisedAlpha_def double_eq_def t)
  qed
qed

text \<open>
  C5 (as amended). The adaptive-alpha loop runs its first pass at half of twice the
  configured alpha: at the configured alpha, unless twice the configured alpha exceeds the
  largest double (then at infinity). After a pass that improved the solution alpha is
  raised, doubled when the pass ran at the configured alpha and quadrupled otherwise; the
  loop re-runs exactly when the raised alpha exceeds 1, and the next pass runs at half the
  raised alpha, that is, at the configured alpha again after a pass at the configured
  alpha, and at twice the alpha of the pass otherwise (short of overflow). After a pass
  that did not improve the loop re-runs exactly when alpha exceeds 1 and the stopping rule
  does not apply, and the next pass runs at half the alpha; the stopping rule applies when
  \<open>use_adaptive_alpha_stopping_rule\<close> is enabled, the pass left the cut unchanged and no
  earlier pass of the call improved. A pass that ends by the small-cut rule, without cut
  hyperedges or with a trivial cut is the last one.
\<close>

theorem adaptive_alpha_schedule:
  assumes run: "refineImpl ctx ign block0 block1 passes levels st = Some ((b, st', tr), levels')"
    and ne: "tr \<noteq> []"
  shows "fst (hd tr) = double_half (double_twice (alpha ctx)) \<and>
    ((\<forall>x. alpha ctx = Finite x \<longrightarrow> \<bar>x\<bar> * 2 \<le> DBL_MAX) \<longrightarrow> fst (hd tr) = alpha ctx) \<and>
    (\<forall>i<length tr.
       (snd (tr ! i) = Improved \<longrightarrow>
          (Suc i < length tr \<longleftrightarrow> exceeds_one (raisedAlpha ctx (fst (tr ! i)))) \<and>
          (Suc i < length tr \<longrightarrow> fst (tr ! Suc i) = double_half (raisedAlpha ctx (fst (tr ! i)))) \<and>
          (\<forall>x. Suc i < length tr \<and> fst (tr ! i) = Finite x \<and> \<bar>x\<bar> * 4 \<le> DBL_MAX \<longrightarrow>
             fst (tr ! Suc i) = (if fst (tr ! i) = alpha ctx then alpha ctx else Finite (2 * x)))) \<and>
       (\<forall>c. snd (tr ! i) = NotImproved c \<longrightarrow>
          (Suc i < length tr \<longleftrightarrow>
             exceeds_one (fst (tr ! i)) \<and>
             \<not> (use_adaptive_alpha_stopping_rule ctx \<and> c \<and> (\<forall>j<i. snd (tr ! j) \<noteq> Improved))) \<and>
          (Suc i < length tr \<longrightarrow> fst (tr ! Suc i) = double_half (fst (tr ! i)))) \<and>
       (snd (tr ! i) \<in> {SmallCutSkip, CutIsZero, TrivialCut} \<longrightarrow> Suc i = length tr))"
proof -
  from run ne
  have "adaptiveFlowIterations ctx block0 block1 passes (double_twice (alpha ctx)) False st = Some (b, st', tr)"
    by (auto simp: refineImpl_def split: prod.splits if_splits option.splits)
  note S = adaptiveFlowIterations_schedule [OF this]
  from S have A: "fst (hd tr) = double_half (double_twice (alpha ctx))" by simp
  have B: "(\<forall>x. alpha ctx = Finite x \<longrightarrow> \<bar>x\<bar> * 2 \<le> DBL_MAX) \<longrightarrow> fst (hd tr) = alpha ctx"
    unfolding A by (intro impI double_half_twice)
  have C: "(snd (tr ! i) = Improved \<longrightarrow>
          (Suc i < length tr \<longleftrightarrow> exceeds_one (raisedAlpha ctx (fst (tr ! i)))) \<and>
          (Suc i < length tr \<longrightarrow> fst (tr ! Suc i) = double_half (raisedAlpha ctx (fst (tr ! i)))) \<and>
          (\<forall>x. Suc i < length tr \<and> fst (tr ! i) = Finite x \<and> \<bar>x\<bar> * 4 \<le> DBL_MAX \<longrightarrow>
             fst (tr ! Suc i) = (if fst (tr ! i) = alpha ctx then alpha ctx else Finite (2 * x)))) \<and>
       (\<forall>c. snd (tr ! i) = NotImproved c \<longrightarrow>
          (Suc i < length tr \<longleftrightarrow>
             exceeds_one (fst (tr ! i)) \<and>
             \<not> (use_adaptive_alpha_stopping_rule ctx \<and> c \<and> (\<forall>j<i. snd (tr ! j) \<noteq> Improved))) \<and>
          (Suc i < length tr \<longrightarrow> fst (tr ! Suc i) = double_half (fst (tr ! i)))) \<and>
       (snd (tr ! i) \<in> {SmallCutSkip, CutIsZero, TrivialCut} \<longrightarrow> Suc i = length tr)"
    if i: "i < length tr" for i
  proof -
    from S i have s: "(snd (tr ! i) = Improved \<longrightarrow>
          (Suc i < length tr \<longleftrightarrow> exceeds_one (raisedAlpha ctx (fst (tr ! i)))) \<and>
          (Suc i < length tr \<longrightarrow> fst (tr ! Suc i) = double_half (raisedAlpha ctx (fst (tr ! i)))))"
      "(\<forall>c. snd (tr ! i) = NotImproved c \<longrightarrow>
          (Suc i < length tr \<longleftrightarrow>
             exceeds_one (fst (tr ! i)) \<and>
             \<not> (use_adaptive_alpha_stopping_rule ctx \<and> c \<and> \<not> False \<and>
                (\<forall>j<i. snd (tr ! j) \<noteq> Improved))) \<and>
          (Suc i < length tr \<longrightarrow> fst (tr ! Suc i) = double_half (fst (tr ! i))))"
      "(snd (tr ! i) \<in> {SmallCutSkip, CutIsZero, TrivialCut} \<longrightarrow> Suc i = length tr)"
      by blast+
    have "fst (tr ! Suc i) = (if fst (tr ! i) = alpha ctx then alpha ctx else Finite (2 * x))"
      if "snd (tr ! i) = Improved" "Suc i < length tr \<and> fst (tr ! i) = Finite x \<and> \<bar>x\<bar> * 4 \<le> DBL_MAX"
      for x
    proof -
      from that have r: "Suc i < length tr" and f: "fst (tr ! i) = Finite x"
        and a: "\<bar>x\<bar> * 4 \<le> DBL_MAX" by simp_all
      from s(1) that(1) r have "fst (tr ! Suc i) = double_half (raisedAlpha ctx (fst (tr ! i)))"
        by blast
      also have "\<dots> = (if fst (tr ! i) = alpha ctx then alpha ctx else Finite (2 * x))"
        unfolding f by (rule double_half_raisedAlpha [OF a])
      finally show ?thesis .
    qed
    then have cor: "snd (tr ! i) = Improved \<longrightarrow>
      (\<forall>x. Suc i < length tr \<and> fst (tr ! i) = Finite x \<and> \<bar>x\<bar> * 4 \<le> DBL_MAX \<longrightarrow>
             fst (tr ! Suc i) = (if fst (tr ! i) = alpha ctx then alpha ctx else Finite (2 * x)))"
      by blast
    from s(2) have s2: "\<forall>c. snd (tr ! i) = NotImproved c \<longrightarrow>
          (Suc i < length tr \<longleftrightarrow>
             exceeds_one (fst (tr ! i)) \<and>
             \<not> (use_adaptive_alpha_stopping_rule ctx \<and> c \<and> (\<forall>j<i. snd (tr ! j) \<noteq> Improved))) \<and>
          (Suc i < length tr \<longrightarrow> fst (tr ! Suc i) = double_half (fst (tr ! i)))"
      by simp
    from s(1) cor s2 s(3) show ?thesis by blast
  qed
  from A B C show ?thesis by blast
qed

theorem adaptive_alpha_schedule_witness:
  "refineImpl ex_ctx False 0 1 [ex_pass_improving, ex_pass_same_cut, ex_pass_no_cut] [4] ex_state =
     Some ((True,
       \<lparr>hg = \<lparr>partID = [0, 1, 0, 1], currentNumNodes = 4, initialNumNodes = 4\<rparr>,
        originalPartID = [0, 1, 0, 1],
        best_metrics = \<lparr>metric_cut = 15, metric_km1 = 20, imbalance = 0\<rparr>\<rparr>,
       [(Finite 16, Improved), (Finite 16, NotImproved True), (Finite 8, CutIsZero)]), []) \<and>
   fst (hd [(Finite 16, Improved), (Finite 16, NotImproved True), (Finite 8, CutIsZero)]) = alpha ex_ctx \<and>
   exceeds_one (raisedAlpha ex_ctx (Finite 16))"
proof -
  let ?tr = "[(Finite 16, Improved), (Finite 16, NotImproved True), (Finite 8, CutIsZero)]"
  have run: "refineImpl ex_ctx False 0 1 [ex_pass_improving, ex_pass_same_cut, ex_pass_no_cut] [4] ex_state =
     Some ((True,
       \<lparr>hg = \<lparr>partID = [0, 1, 0, 1], currentNumNodes = 4, initialNumNodes = 4\<rparr>,
        originalPartID = [0, 1, 0, 1],
        best_metrics = \<lparr>metric_cut = 15, metric_km1 = 20, imbalance = 0\<rparr>\<rparr>,
       ?tr), [])"
    by (simp add: ex_defs flow_defs Let_def)
  have small: "\<forall>x. alpha ex_ctx = Finite x \<longrightarrow> \<bar>x\<bar> * 2 \<le> DBL_MAX"
  proof (intro allI impI)
    fix x assume "alpha ex_ctx = Finite x"
    then have "x = 16" by (simp add: ex_defs)
    moreover have "(32::real) \<le> 2 ^ 971"
      using power_increasing [of 5 971 "2::real"] by simp
    ultimately show "\<bar>x\<bar> * 2 \<le> DBL_MAX" using DBL_MAX_large by simp
  qed
  note T = adaptive_alpha_schedule [OF run]
  from T have first: "fst (hd ?tr) = alpha ex_ctx" using small by blast
  have "exceeds_one (raisedAlpha ex_ctx (Finite 16))"
    using T [THEN conjunct2, THEN conjunct2, rule_format, of 0, THEN conjunct1]
    by (simp del: exceeds_one.simps)
  with run first show ?thesis by simp
qed

text \<open>
  The claim as first stated fails on a run with configured alpha 16 and the stopping rule
  enabled: the pass after the improving first pass runs at 16 again, not at 32, and the
  loop goes on (at alpha 8) after the second pass, which did not improve and left the cut
  unchanged. With the largest double as configured alpha the first pass runs at infinity.
\<close>

theorem alpha_not_doubled_after_improvement:
  "map_option (snd \<circ> snd \<circ> fst)
     (refineImpl ex_ctx False 0 1 [ex_pass_improving, ex_pass_same_cut, ex_pass_no_cut] [4] ex_state)
     = Some [(Finite 16, Improved), (Finite 16, NotImproved True), (Finite 8, CutIsZero)] \<and>
   alpha ex_ctx = Finite 16 \<and> use_adaptive_alpha_stopping_rule ex_ctx \<and>
   map_option (snd \<circ> snd \<circ> fst)
     (refineImpl ex_ctx_largest_alpha False 0 1 [ex_pass_no_cut] [4] ex_state)
     = Some [(PlusInfinity, CutIsZero)] \<and>
   alpha ex_ctx_largest_alpha = Finite DBL_MAX"
  by (simp add: ex_defs flow_defs Let_def double_twice_largest)




section \<open>The k-way priority queue: proofs\<close>

subsection \<open>The mapping under \<open>swap\<close> and \<open>markUnused\<close>\<close>

lemma len_set_part [simp]: "length (set_part m i p) = length m"
  by (simp add: set_part_def)

lemma len_set_index [simp]: "length (set_index m p i) = length m"
  by (simp add: set_index_def)

lemma part_at_set_part [simp]:
  "part_at (set_part m i p) j = (if j = i \<and> i < length m then p else part_at m j)"
  by (cases "i < length m") (simp_all add: set_part_def part_at_def nth_list_update list_update_beyond)

lemma index_of_set_part [simp]: "index_of (set_part m i p) j = index_of m j"
  by (cases "i < length m") (simp_all add: set_part_def index_of_def nth_list_update list_update_beyond)

lemma part_at_set_index [simp]: "part_at (set_index m p i) j = part_at m j"
  by (cases "p < length m") (simp_all add: set_index_def part_at_def nth_list_update list_update_beyond)

lemma index_of_set_index [simp]:
  "index_of (set_index m p i) q = (if q = p \<and> p < length m then i else index_of m q)"
  by (cases "p < length m") (simp_all add: set_index_def index_of_def nth_list_update list_update_beyond)

lemma swap_ok:
  assumes ok: "mapping_ok (mapping s) k n" and len: "length (queues s) = k"
    and a: "a < n" and b: "b < n"
  shows "\<exists>m'. swap s a b = Some (s\<lparr>queues := (queues s)[a := queues s ! b, b := queues s ! a], mapping := m'\<rparr>) \<and>
      length m' = k + 1 \<and>
      (\<forall>i. part_at m' i = (if i = a then part_at (mapping s) b
                             else if i = b then part_at (mapping s) a else part_at (mapping s) i)) \<and>
      (\<forall>p. index_of m' p = (if p = part_at (mapping s) a then b
                              else if p = part_at (mapping s) b then a else index_of (mapping s) p))"
proof -
  let ?m = "mapping s"
  from ok a b have bounds: "n \<le> k" "length ?m = k + 1" "a < k" "b < k"
    and pa: "part_at ?m a < k" "index_of ?m (part_at ?m a) = a"
    and pb: "part_at ?m b < k" "index_of ?m (part_at ?m b) = b"
    by (auto simp: mapping_ok_def)
  have inj: "part_at ?m a = part_at ?m b \<longleftrightarrow> a = b"
    using pa pb by metis
  define m1 where "m1 = set_part (set_part ?m a (part_at ?m b)) b (part_at ?m a)"
  define m2 where "m2 = set_index (set_index m1 (part_at ?m b) a) (part_at ?m a) b"
  have m1: "length m1 = k + 1" "part_at m1 a = part_at ?m b" "part_at m1 b = part_at ?m a"
    "index_of m1 (part_at ?m a) = a" "index_of m1 (part_at ?m b) = b"
    using bounds pa pb by (simp_all add: m1_def)
  have m2: "length m2 = k + 1"
    "\<And>i. part_at m2 i = (if i = a then part_at ?m b
                             else if i = b then part_at ?m a else part_at ?m i)"
    "\<And>p. index_of m2 p = (if p = part_at ?m a then b
                              else if p = part_at ?m b then a else index_of ?m p)"
    using bounds pa pb inj by (auto simp: m1_def m2_def)
  have "swap s a b = Some (s\<lparr>queues := (queues s)[a := queues s ! b, b := queues s ! a], mapping := m2\<rparr>)"
    unfolding swap_def Let_def m1_def [symmetric]
    using bounds pa pb len m1 m2 inj by (auto simp add: m2_def [symmetric])
  with m2 show ?thesis by blast
qed

lemma kInvalidPart_less: "kInvalidPart < kInvalidIndex"
  by (simp add: kInvalidPart_def kInvalidIndex_def)

lemma mapping_okD:
  assumes "mapping_ok m k n"
  shows "length m = k + 1" "n \<le> k" "k < kInvalidPart" "k < kInvalidIndex" "n < kInvalidIndex"
    "\<And>i. i < n \<Longrightarrow> part_at m i < k"
    "\<And>i. i < n \<Longrightarrow> index_of m (part_at m i) = i"
    "\<And>i. n \<le> i \<Longrightarrow> i \<le> k \<Longrightarrow> part_at m i = kInvalidPart"
    "\<And>p. p < k \<Longrightarrow> index_of m p \<noteq> kInvalidIndex \<Longrightarrow> index_of m p < n"
    "\<And>p. p < k \<Longrightarrow> index_of m p \<noteq> kInvalidIndex \<Longrightarrow> part_at m (index_of m p) = p"
  using assms kInvalidPart_less by (auto simp: mapping_ok_def)

lemma mapping_ok_index_less:
  assumes "mapping_ok m k n" "p < k"
  shows "index_of m p < n \<longleftrightarrow> index_of m p \<noteq> kInvalidIndex"
  using mapping_okD(5,9) [OF assms(1)] assms(2) by auto

lemma mapping_ok_part_of_index:
  assumes "mapping_ok m k n" "p < k" "index_of m p = i" "i < n"
  shows "part_at m i = p"
  using mapping_okD(5,10) [OF assms(1)] assms(2-) by auto

lemma swap_effect:
  assumes ok: "mapping_ok (mapping s) k n" and len: "length (queues s) = k"
    and a: "a < n" and b: "b < n"
  obtains s' where "swap s a b = Some s'"
    "mapping_ok (mapping s') k n" "length (queues s') = k"
    "num_entries s' = num_entries s" "num_enabled_pqs s' = num_enabled_pqs s"
    "num_nonempty_pqs s' = num_nonempty_pqs s"
    "queues s' = (queues s)[a := queues s ! b, b := queues s ! a]"
    "\<And>p. index_of (mapping s') p =
        (if p = part_at (mapping s) a then b
         else if p = part_at (mapping s) b then a else index_of (mapping s) p)"
    "\<And>p. p < k \<Longrightarrow> index_of (mapping s) p \<noteq> kInvalidIndex \<Longrightarrow>
        queues s' ! index_of (mapping s') p = queues s ! index_of (mapping s) p"
    "\<And>p. p < k \<Longrightarrow>
        (index_of (mapping s') p = kInvalidIndex) = (index_of (mapping s) p = kInvalidIndex)"
    "\<And>i. n \<le> i \<Longrightarrow> queues s' ! i = queues s ! i"
    "mset (queues s') = mset (queues s)"
proof -
  let ?m = "mapping s"
  note D = mapping_okD [OF ok]
  from swap_ok [OF ok len a b] obtain m' where
    sw: "swap s a b = Some (s\<lparr>queues := (queues s)[a := queues s ! b, b := queues s ! a], mapping := m'\<rparr>)"
    and lm: "length m' = k + 1"
    and pm: "\<And>i. part_at m' i = (if i = a then part_at ?m b
                             else if i = b then part_at ?m a else part_at ?m i)"
    and im: "\<And>p. index_of m' p = (if p = part_at ?m a then b
                              else if p = part_at ?m b then a else index_of ?m p)"
    by blast
  let ?s' = "s\<lparr>queues := (queues s)[a := queues s ! b, b := queues s ! a], mapping := m'\<rparr>"
  have ak: "a < k" "b < k" using a b D(2) by simp_all
  have pab: "part_at ?m a < k" "part_at ?m b < k" "index_of ?m (part_at ?m a) = a"
    "index_of ?m (part_at ?m b) = b"
    using D(6,7) a b by simp_all
  have inv: "a \<noteq> kInvalidIndex" "b \<noteq> kInvalidIndex" using a b D(5) by simp_all
  have eq_a: "part_at ?m i = part_at ?m a \<longleftrightarrow> i = a" if "i < n" for i
    using D(7) [OF that] D(7) [OF a] by metis
  have eq_b: "part_at ?m i = part_at ?m b \<longleftrightarrow> i = b" if "i < n" for i
    using D(7) [OF that] D(7) [OF b] by metis
  have c1: "part_at m' i < k \<and> index_of m' (part_at m' i) = i" if "i < n" for i
  proof -
    consider "i = a" | "i \<noteq> a" "i = b" | "i \<noteq> a" "i \<noteq> b" by blast
    then show ?thesis
    proof cases
      case 1
      then show ?thesis using pab eq_a [OF b] by (simp add: pm im)
    next
      case 2
      then show ?thesis using pab eq_b [OF a] by (simp add: pm im)
    next
      case 3
      then show ?thesis using D(6,7) [OF that] eq_a [OF that] eq_b [OF that] by (simp add: pm im)
    qed
  qed
  have c2: "part_at m' i = kInvalidPart" if "n \<le> i" "i \<le> k" for i
    using that D(8) [OF that] a b by (simp add: pm)
  have c3: "index_of m' p < n \<and> part_at m' (index_of m' p) = p"
    if "p < k" "index_of m' p \<noteq> kInvalidIndex" for p
  proof -
    consider "p = part_at ?m a" | "p \<noteq> part_at ?m a" "p = part_at ?m b"
      | "p \<noteq> part_at ?m a" "p \<noteq> part_at ?m b" by blast
    then show ?thesis
    proof cases
      case 1
      then show ?thesis using a b by (simp add: pm im)
    next
      case 2
      then show ?thesis using a b eq_b [OF a] by (simp add: pm im)
    next
      case 3
      with that have v: "index_of ?m p \<noteq> kInvalidIndex" by (simp add: im)
      from D(9,10) [OF that(1) v] have "index_of ?m p < n" "part_at ?m (index_of ?m p) = p"
        by simp_all
      moreover from this 3 have "index_of ?m p \<noteq> a" "index_of ?m p \<noteq> b" by auto
      ultimately show ?thesis using 3 by (simp add: pm im)
    qed
  qed
  have mok: "mapping_ok m' k n"
    unfolding mapping_ok_def using lm D(2,3) c1 c2 c3 by auto
  have follow: "queues ?s' ! index_of m' p = queues s ! index_of ?m p"
    if "p < k" "index_of ?m p \<noteq> kInvalidIndex" for p
  proof -
    from D(9,10) [OF that] have i: "index_of ?m p < n" "part_at ?m (index_of ?m p) = p" by simp_all
    consider "p = part_at ?m a" | "p \<noteq> part_at ?m a" "p = part_at ?m b"
      | "p \<noteq> part_at ?m a" "p \<noteq> part_at ?m b" by blast
    then show ?thesis
    proof cases
      case 1
      then show ?thesis using ak len pab by (simp add: im nth_list_update)
    next
      case 2
      then show ?thesis using ak len pab by (simp add: im nth_list_update)
    next
      case 3
      with i have "index_of ?m p \<noteq> a" "index_of ?m p \<noteq> b" by auto
      with 3 show ?thesis by (simp add: im)
    qed
  qed
  have valid: "(index_of m' p = kInvalidIndex) = (index_of ?m p = kInvalidIndex)" if "p < k" for p
    using inv pab by (simp add: im)
  have beyond: "queues ?s' ! i = queues s ! i" if "n \<le> i" for i
    using that a b by simp
  have ms: "mset (queues ?s') = mset (queues s)"
    using ak len by (simp add: mset_swap)
  show ?thesis
    by (rule that [of ?s']) (use sw mok len im follow valid beyond ms in simp_all)
qed

lemma unuse_effect:
  assumes ok: "mapping_ok (mapping t) k n" and len: "length (queues t) = k"
    and p: "p < k" and idx: "index_of (mapping t) p < n"
  obtains t' where
    "(swap t (index_of (mapping t) p) (n - 1) \<bind> (\<lambda>u. markUnused u p)) = Some t'"
    "mapping_ok (mapping t') k (n - 1)" "length (queues t') = k"
    "num_entries t' = num_entries t" "num_enabled_pqs t' = num_enabled_pqs t"
    "num_nonempty_pqs t' = num_nonempty_pqs t"
    "index_of (mapping t') p = kInvalidIndex"
    "\<And>q. q \<noteq> p \<Longrightarrow> index_of (mapping t') q =
        (if q = part_at (mapping t) (n - 1) then index_of (mapping t) p else index_of (mapping t) q)"
    "\<And>q. q < k \<Longrightarrow> q \<noteq> p \<Longrightarrow> index_of (mapping t) q \<noteq> kInvalidIndex \<Longrightarrow>
        queues t' ! index_of (mapping t') q = queues t ! index_of (mapping t) q"
    "\<And>q. q < k \<Longrightarrow> q \<noteq> p \<Longrightarrow>
        (index_of (mapping t') q = kInvalidIndex) = (index_of (mapping t) q = kInvalidIndex)"
    "queues t' ! (n - 1) = queues t ! index_of (mapping t) p"
    "\<And>i. n \<le> i \<Longrightarrow> queues t' ! i = queues t ! i"
    "mset (queues t') = mset (queues t)"
proof -
  let ?m = "mapping t"
  let ?a = "index_of ?m p"
  note D = mapping_okD [OF ok]
  from idx have n1: "n - 1 < n" by simp
  from idx D(5) have va: "?a \<noteq> kInvalidIndex" by simp
  from D(10) [OF p va] have pa: "part_at ?m ?a = p" .
  from swap_effect [OF ok len idx n1] obtain u where
    sw: "swap t ?a (n - 1) = Some u" and
    uok: "mapping_ok (mapping u) k n" and ulen: "length (queues u) = k" and
    ucnt: "num_entries u = num_entries t" "num_enabled_pqs u = num_enabled_pqs t"
      "num_nonempty_pqs u = num_nonempty_pqs t" and
    uq: "queues u = (queues t)[?a := queues t ! (n - 1), n - 1 := queues t ! ?a]" and
    ui: "\<And>q. index_of (mapping u) q =
        (if q = part_at ?m ?a then n - 1
         else if q = part_at ?m (n - 1) then ?a else index_of ?m q)" and
    ufollow: "\<And>q. q < k \<Longrightarrow> index_of ?m q \<noteq> kInvalidIndex \<Longrightarrow>
        queues u ! index_of (mapping u) q = queues t ! index_of ?m q" and
    uvalid: "\<And>q. q < k \<Longrightarrow>
        (index_of (mapping u) q = kInvalidIndex) = (index_of ?m q = kInvalidIndex)" and
    ubeyond: "\<And>i. n \<le> i \<Longrightarrow> queues u ! i = queues t ! i" and
    ums: "mset (queues u) = mset (queues t)"
    by blast
  note U = mapping_okD [OF uok]
  from ui [of p] pa have uip: "index_of (mapping u) p = n - 1" by simp
  define m' where "m' = set_index (set_part (mapping u) (n - 1) kInvalidPart) p kInvalidIndex"
  define t' where "t' = u\<lparr>mapping := m'\<rparr>"
  have mu: "markUnused u p = Some t'"
    using U(1,2) p n1 uip by (simp add: markUnused_def t'_def m'_def)
  have lm: "length m' = k + 1" using U(1) by (simp add: m'_def)
  have pm: "part_at m' i = (if i = n - 1 then kInvalidPart else part_at (mapping u) i)" for i
    using U(1,2) n1 by (simp add: m'_def)
  have im: "index_of m' q = (if q = p then kInvalidIndex else index_of (mapping u) q)" for q
    using U(1) p by (simp add: m'_def)
  have c1: "part_at m' i < k \<and> index_of m' (part_at m' i) = i" if "i < n - 1" for i
  proof -
    from that have i: "i < n" by simp
    from U(7) [OF i] uip that have "part_at (mapping u) i \<noteq> p" by auto
    with U(6,7) [OF i] that show ?thesis by (simp add: pm im)
  qed
  have c2: "part_at m' i = kInvalidPart" if "n - 1 \<le> i" "i \<le> k" for i
    using that U(8) [of i] by (cases "i = n - 1") (simp_all add: pm)
  have c3: "index_of m' q < n - 1 \<and> part_at m' (index_of m' q) = q"
    if "q < k" "index_of m' q \<noteq> kInvalidIndex" for q
  proof -
    from that have qp: "q \<noteq> p" and v: "index_of (mapping u) q \<noteq> kInvalidIndex"
      by (auto simp: im split: if_splits)
    from U(9,10) [OF that(1) v] have j: "index_of (mapping u) q < n"
      "part_at (mapping u) (index_of (mapping u) q) = q" by simp_all
    have "index_of (mapping u) q \<noteq> n - 1"
    proof
      assume e: "index_of (mapping u) q = n - 1"
      from U(10) [OF p] uip va U(5) n1 have "part_at (mapping u) (n - 1) = p" by simp
      with j(2) e qp show False by simp
    qed
    with j qp show ?thesis by (simp add: pm im)
  qed
  have mok: "mapping_ok m' k (n - 1)"
    unfolding mapping_ok_def using lm D(2,3) c1 c2 c3 by auto
  have i2: "index_of m' q =
        (if q = part_at ?m (n - 1) then ?a else index_of ?m q)" if "q \<noteq> p" for q
    using that pa by (simp add: im ui)
  have follow: "queues u ! index_of m' q = queues t ! index_of ?m q"
    if "q < k" "q \<noteq> p" "index_of ?m q \<noteq> kInvalidIndex" for q
    using ufollow [OF that(1,3)] that(2) by (simp add: im)
  have valid: "(index_of m' q = kInvalidIndex) = (index_of ?m q = kInvalidIndex)"
    if "q < k" "q \<noteq> p" for q
    using uvalid [OF that(1)] that(2) by (simp add: im)
  have last: "queues u ! (n - 1) = queues t ! ?a"
    using n1 D(2) len idx by (simp add: uq)
  show ?thesis
    by (rule that [of t'])
      (use sw mu mok ulen ucnt im i2 follow valid last ubeyond ums in \<open>simp_all add: t'_def\<close>)
qed

subsection \<open>The invariant under \<open>enablePart\<close>, \<open>disablePart\<close> and \<open>insert\<close>\<close>

lemma sum_list_length_mset:
  "mset xs = mset ys \<Longrightarrow> sum_list (map length xs) = sum_list (map length ys)"
proof -
  assume "mset xs = mset ys"
  then have "mset (map length xs) = mset (map length ys)" by simp
  then have "sum_mset (mset (map length xs)) = sum_mset (mset (map length ys))" by simp
  then show ?thesis by (simp only: sum_mset_sum_list)
qed

lemma kpq_invD:
  assumes "kpq_inv s"
  shows "mapping_ok (mapping s) (length (queues s)) (num_nonempty_pqs s)"
    "num_enabled_pqs s \<le> num_nonempty_pqs s"
    "\<And>i. i < num_nonempty_pqs s \<Longrightarrow> queues s ! i \<noteq> []"
    "\<And>i. num_nonempty_pqs s \<le> i \<Longrightarrow> i < length (queues s) \<Longrightarrow> queues s ! i = []"
    "\<And>q. q \<in> set (queues s) \<Longrightarrow> distinct (map fst q)"
    "num_entries s = sum_list (map length (queues s))"
  using assms by (auto simp: kpq_inv_def)

lemma kpq_invI:
  assumes "mapping_ok (mapping s) (length (queues s)) (num_nonempty_pqs s)"
    "num_enabled_pqs s \<le> num_nonempty_pqs s"
    "\<And>i. i < num_nonempty_pqs s \<Longrightarrow> queues s ! i \<noteq> []"
    "\<And>i. num_nonempty_pqs s \<le> i \<Longrightarrow> i < length (queues s) \<Longrightarrow> queues s ! i = []"
    "\<And>q. q \<in> set (queues s) \<Longrightarrow> distinct (map fst q)"
    "num_entries s = sum_list (map length (queues s))"
  shows "kpq_inv s"
  using assms by (auto simp: kpq_inv_def)

lemma kpq_inv_unused_iff:
  assumes "kpq_inv s" "p < length (queues s)"
  shows "isUnused s p \<longleftrightarrow> entries s p = []"
proof -
  note I = kpq_invD [OF assms(1)]
  note D = mapping_okD [OF I(1)]
  show ?thesis
  proof (cases "index_of (mapping s) p = kInvalidIndex")
    case True
    with D(5) show ?thesis by (simp add: isUnused_def entries_def)
  next
    case False
    from D(9) [OF assms(2) False] I(3) False show ?thesis
      by (simp add: isUnused_def entries_def)
  qed
qed

lemma enablePart_effect:
  assumes inv: "kpq_inv s" and p: "p < length (queues s)"
  obtains s' where "enablePart s p = Some s'" "kpq_inv s'"
    "length (queues s') = length (queues s)" "num_entries s' = num_entries s"
    "\<And>q. q < length (queues s) \<Longrightarrow> entries s' q = entries s q"
    "\<And>q. q < length (queues s) \<Longrightarrow>
        isEnabled s' q \<longleftrightarrow> isEnabled s q \<or> (q = p \<and> \<not> isUnused s p)"
proof (cases "\<not> isUnused s p \<and> \<not> isEnabled s p")
  case False
  then have "enablePart s p = Some s" using p by (auto simp: enablePart_def)
  moreover from False have "isEnabled s q \<longleftrightarrow> isEnabled s q \<or> (q = p \<and> \<not> isUnused s p)" for q
    by auto
  ultimately show ?thesis using inv by (intro that [of s]) simp_all
next
  case True
  let ?m = "mapping s" and ?k = "length (queues s)" and ?n = "num_nonempty_pqs s"
    and ?e = "num_enabled_pqs s"
  let ?a = "index_of ?m p"
  note I = kpq_invD [OF inv]
  note D = mapping_okD [OF I(1)]
  from True have va: "?a \<noteq> kInvalidIndex" and ea: "?e \<le> ?a"
    by (simp_all add: isUnused_def isEnabled_def)
  from D(9,10) [OF p va] have an: "?a < ?n" and pa: "part_at ?m ?a = p" by simp_all
  from ea an have en: "?e < ?n" by simp
  from swap_effect [OF I(1) refl an en] obtain u where
    sw: "swap s ?a ?e = Some u" and
    uok: "mapping_ok (mapping u) ?k ?n" and ulen: "length (queues u) = ?k" and
    ucnt: "num_entries u = num_entries s" "num_enabled_pqs u = ?e"
      "num_nonempty_pqs u = ?n" and
    uq: "queues u = (queues s)[?a := queues s ! ?e, ?e := queues s ! ?a]" and
    ui: "\<And>q. index_of (mapping u) q =
        (if q = part_at ?m ?a then ?e
         else if q = part_at ?m ?e then ?a else index_of ?m q)" and
    ufollow: "\<And>q. q < ?k \<Longrightarrow> index_of ?m q \<noteq> kInvalidIndex \<Longrightarrow>
        queues u ! index_of (mapping u) q = queues s ! index_of ?m q" and
    uvalid: "\<And>q. q < ?k \<Longrightarrow>
        (index_of (mapping u) q = kInvalidIndex) = (index_of ?m q = kInvalidIndex)" and
    ubeyond: "\<And>i. ?n \<le> i \<Longrightarrow> queues u ! i = queues s ! i" and
    ums: "mset (queues u) = mset (queues s)"
    by blast
  define s' where "s' = u\<lparr>num_enabled_pqs := ?e + 1\<rparr>"
  have res: "enablePart s p = Some s'"
    using True p sw ucnt en by (simp add: enablePart_def s'_def Let_def)
  have ne: "queues u ! i \<noteq> []" if "i < ?n" for i
    using that I(3) [OF that] I(3) [OF an] I(3) [OF en] D(2) an en by (simp add: uq nth_list_update)
  have inv': "kpq_inv s'"
  proof (rule kpq_invI)
    show "mapping_ok (mapping s') (length (queues s')) (num_nonempty_pqs s')"
      using uok ulen ucnt by (simp add: s'_def)
    show "num_enabled_pqs s' \<le> num_nonempty_pqs s'" using en ucnt by (simp add: s'_def)
    show "queues s' ! i \<noteq> []" if "i < num_nonempty_pqs s'" for i
      using that ne ucnt by (simp add: s'_def)
    show "queues s' ! i = []" if "num_nonempty_pqs s' \<le> i" "i < length (queues s')" for i
      using that ubeyond [of i] I(4) [of i] ucnt ulen by (simp add: s'_def)
    show "distinct (map fst q)" if "q \<in> set (queues s')" for q
      using that I(5) [of q] mset_eq_setD [OF ums] by (simp add: s'_def)
    show "num_entries s' = sum_list (map length (queues s'))"
      using I(6) ucnt sum_list_length_mset [OF ums] by (simp add: s'_def)
  qed
  have ent: "entries s' q = entries s q" if "q < ?k" for q
  proof (cases "index_of ?m q = kInvalidIndex")
    case True
    with uvalid [OF that] D(5) ucnt show ?thesis by (simp add: entries_def s'_def)
  next
    case False
    with uvalid [OF that] have "index_of (mapping u) q \<noteq> kInvalidIndex" by simp
    with mapping_okD(9) [OF uok that] D(9) [OF that False] ufollow [OF that False] ucnt
    show ?thesis by (simp add: entries_def s'_def)
  qed
  have en': "isEnabled s' q \<longleftrightarrow> isEnabled s q \<or> (q = p \<and> \<not> isUnused s p)" if "q < ?k" for q
  proof -
    consider "q = p" | "q \<noteq> p" "q = part_at ?m ?e" | "q \<noteq> p" "q \<noteq> part_at ?m ?e" by blast
    then show ?thesis
    proof cases
      case 1
      then show ?thesis using True pa by (simp add: isEnabled_def s'_def ui)
    next
      case 2
      from D(7) [OF en] 2 have "index_of ?m q = ?e" by simp
      moreover from 2 pa D(7) [OF en] have "?a \<noteq> ?e" by auto
      ultimately show ?thesis using 2 pa ea by (simp add: isEnabled_def s'_def ui)
    next
      case 3
      have "index_of ?m q \<noteq> ?e"
      proof
        assume "index_of ?m q = ?e"
        from mapping_ok_part_of_index [OF I(1) that this en] 3 show False by simp
      qed
      then show ?thesis using 3 pa by (auto simp: isEnabled_def s'_def ui)
    qed
  qed
  show ?thesis
    by (rule that [of s']) (use res inv' ent en' ulen ucnt in \<open>simp_all add: s'_def\<close>)
qed

lemma disablePart_effect:
  assumes inv: "kpq_inv s" and p: "p < length (queues s)"
  obtains s' where "disablePart s p = Some s'" "kpq_inv s'"
    "length (queues s') = length (queues s)" "num_entries s' = num_entries s"
    "\<And>q. q < length (queues s) \<Longrightarrow> entries s' q = entries s q"
    "\<And>q. q < length (queues s) \<Longrightarrow> isEnabled s' q \<longleftrightarrow> isEnabled s q \<and> q \<noteq> p"
proof (cases "isEnabled s p")
  case False
  then have "disablePart s p = Some s" using p by (auto simp: disablePart_def)
  moreover from False have "isEnabled s q \<longleftrightarrow> isEnabled s q \<and> q \<noteq> p" for q
    by auto
  ultimately show ?thesis using inv by (intro that [of s]) simp_all
next
  case True
  let ?m = "mapping s" and ?k = "length (queues s)" and ?n = "num_nonempty_pqs s"
    and ?e = "num_enabled_pqs s"
  let ?a = "index_of ?m p"
  note I = kpq_invD [OF inv]
  note D = mapping_okD [OF I(1)]
  from True have ae: "?a < ?e" by (simp add: isEnabled_def)
  with I(2) have an: "?a < ?n" and en: "?e - 1 < ?n" by simp_all
  from an D(5) have va: "?a \<noteq> kInvalidIndex" by simp
  from D(10) [OF p va] have pa: "part_at ?m ?a = p" by simp_all
  define s1 where "s1 = s\<lparr>num_enabled_pqs := ?e - 1\<rparr>"
  have ok1: "mapping_ok (mapping s1) ?k ?n" and len1: "length (queues s1) = ?k"
    using I(1) by (simp_all add: s1_def)
  from swap_effect [OF ok1 len1 an en] obtain u where
    sw: "swap s1 ?a (?e - 1) = Some u" and
    uok: "mapping_ok (mapping u) ?k ?n" and ulen: "length (queues u) = ?k" and
    ucnt: "num_entries u = num_entries s1" "num_enabled_pqs u = num_enabled_pqs s1"
      "num_nonempty_pqs u = num_nonempty_pqs s1" and
    uq: "queues u = (queues s1)[?a := queues s1 ! (?e - 1), ?e - 1 := queues s1 ! ?a]" and
    ui: "\<And>q. index_of (mapping u) q =
        (if q = part_at (mapping s1) ?a then ?e - 1
         else if q = part_at (mapping s1) (?e - 1) then ?a else index_of (mapping s1) q)" and
    ufollow: "\<And>q. q < ?k \<Longrightarrow> index_of (mapping s1) q \<noteq> kInvalidIndex \<Longrightarrow>
        queues u ! index_of (mapping u) q = queues s1 ! index_of (mapping s1) q" and
    uvalid: "\<And>q. q < ?k \<Longrightarrow>
        (index_of (mapping u) q = kInvalidIndex) = (index_of (mapping s1) q = kInvalidIndex)" and
    ubeyond: "\<And>i. ?n \<le> i \<Longrightarrow> queues u ! i = queues s1 ! i" and
    ums: "mset (queues u) = mset (queues s1)"
    by blast
  have s1simps: "mapping s1 = ?m" "queues s1 = queues s" "num_entries s1 = num_entries s"
    "num_enabled_pqs s1 = ?e - 1" "num_nonempty_pqs s1 = ?n"
    by (simp_all add: s1_def)
  have res: "disablePart s p = Some u"
    using True p sw [unfolded s1_def] by (simp add: disablePart_def Let_def)
  have ne: "queues u ! i \<noteq> []" if "i < ?n" for i
    using that I(3) [OF that] I(3) [OF an] I(3) [OF en] D(2) an en
    by (simp add: uq s1simps nth_list_update)
  have inv': "kpq_inv u"
  proof (rule kpq_invI)
    show "mapping_ok (mapping u) (length (queues u)) (num_nonempty_pqs u)"
      using uok ulen ucnt by (simp add: s1simps)
    show "num_enabled_pqs u \<le> num_nonempty_pqs u" using en ucnt by (simp add: s1simps)
    show "queues u ! i \<noteq> []" if "i < num_nonempty_pqs u" for i
      using that ne ucnt by (simp add: s1simps)
    show "queues u ! i = []" if "num_nonempty_pqs u \<le> i" "i < length (queues u)" for i
      using that ubeyond [of i] I(4) [of i] ucnt ulen by (simp add: s1simps)
    show "distinct (map fst q)" if "q \<in> set (queues u)" for q
      using that I(5) [of q] mset_eq_setD [OF ums] by (simp add: s1simps)
    show "num_entries u = sum_list (map length (queues u))"
      using I(6) ucnt sum_list_length_mset [OF ums] by (simp add: s1simps)
  qed
  have ent: "entries u q = entries s q" if "q < ?k" for q
  proof (cases "index_of ?m q = kInvalidIndex")
    case True
    with uvalid [OF that] D(5) ucnt show ?thesis by (simp add: entries_def s1simps)
  next
    case False
    with uvalid [OF that] have "index_of (mapping u) q \<noteq> kInvalidIndex" by (simp add: s1simps)
    with mapping_okD(9) [OF uok that] D(9) [OF that False] ufollow [OF that] False ucnt
    show ?thesis by (simp add: entries_def s1simps)
  qed
  have en': "isEnabled u q \<longleftrightarrow> isEnabled s q \<and> q \<noteq> p" if "q < ?k" for q
  proof -
    consider "q = p" | "q \<noteq> p" "q = part_at ?m (?e - 1)" | "q \<noteq> p" "q \<noteq> part_at ?m (?e - 1)"
      by blast
    then show ?thesis
    proof cases
      case 1
      then show ?thesis using pa ucnt by (simp add: isEnabled_def ui s1simps)
    next
      case 2
      from D(7) [OF en] 2 have iq: "index_of ?m q = ?e - 1" by simp
      moreover from 2 pa D(7) [OF en] have "?a \<noteq> ?e - 1" by auto
      ultimately show ?thesis using 2 pa ae ucnt by (simp add: isEnabled_def ui s1simps)
    next
      case 3
      have "index_of ?m q \<noteq> ?e - 1"
      proof
        assume "index_of ?m q = ?e - 1"
        from mapping_ok_part_of_index [OF I(1) that this en] 3 show False by simp
      qed
      then show ?thesis using 3 pa ucnt by (auto simp: isEnabled_def ui s1simps)
    qed
  qed
  show ?thesis
    by (rule that [of u]) (use res inv' ent en' ulen ucnt in \<open>simp_all add: s1simps\<close>)
qed

lemma sum_list_length_update:
  "i < length qs \<Longrightarrow>
     sum_list (map length (qs[i := q])) = sum_list (map length qs) + length q - length (qs ! i)"
  by (simp add: map_update sum_list_update)

lemma mapping_ok_cong:
  assumes "mapping_ok m k n" "length m' = length m"
    "\<And>i. part_at m' i = part_at m i" "\<And>p. index_of m' p = index_of m p"
  shows "mapping_ok m' k n"
  using assms by (simp add: mapping_ok_def)

lemma mapping_ok_full:
  assumes ok: "mapping_ok m k k" and p: "p < k"
  shows "index_of m p \<noteq> kInvalidIndex"
proof -
  note D = mapping_okD [OF ok]
  have "inj_on (part_at m) {..<k}"
    by (rule inj_on_inverseI [where g = "index_of m"]) (simp add: D(7))
  moreover have "part_at m ` {..<k} \<subseteq> {..<k}" using D(6) by auto
  ultimately have "part_at m ` {..<k} = {..<k}"
    by (intro card_subset_eq) (simp_all add: card_image)
  with p have "p \<in> part_at m ` {..<k}" by simp
  then obtain i where "i < k" "part_at m i = p" by auto
  with D(7) [of i] D(4) show ?thesis by auto
qed

lemma insert_pq_effect:
  assumes inv: "kpq_inv s" and p: "p < length (queues s)"
    and fresh: "\<not> heap_contains (entries s p) v"
  obtains s' where "insert_pq s v p key = Some s'" "kpq_inv s'"
    "length (queues s') = length (queues s)" "num_entries s' = num_entries s + 1"
    "entries s' p = entries s p @ [(v, key)]"
    "\<And>q. q < length (queues s) \<Longrightarrow> q \<noteq> p \<Longrightarrow> entries s' q = entries s q"
    "\<And>q. q < length (queues s) \<Longrightarrow> isEnabled s' q \<longleftrightarrow> isEnabled s q"
proof -
  let ?m = "mapping s" and ?k = "length (queues s)" and ?n = "num_nonempty_pqs s"
    and ?e = "num_enabled_pqs s"
  let ?a = "index_of ?m p"
  note I = kpq_invD [OF inv]
  note D = mapping_okD [OF I(1)]
  show ?thesis
  proof (cases "?a = kInvalidIndex")
    case False
    from D(9,10) [OF p False] have an: "?a < ?n" and pa: "part_at ?m ?a = p" by simp_all
    from an D(2) have ak: "?a < ?k" by simp
    define m2 where "m2 = set_index (set_part ?m ?n (part_at ?m ?n)) p ?a"
    define s' where "s' = s\<lparr>queues := (queues s)[?a := queues s ! ?a @ [(v, key)]], mapping := m2,
                      num_nonempty_pqs := ?n, num_entries := num_entries s + 1\<rparr>"
    have pm: "part_at m2 i = part_at ?m i" for i by (simp add: m2_def)
    have im: "index_of m2 q = index_of ?m q" for q by (simp add: m2_def)
    have lm: "length m2 = length ?m" by (simp add: m2_def)
    from fresh an have nc: "\<not> heap_contains (queues s ! ?a) v" by (simp add: entries_def)
    have res: "insert_pq s v p key = Some s'"
      unfolding insert_pq_def Let_def using p D(1,2) False ak nc
      by (simp add: push_def s'_def m2_def)
    have inv': "kpq_inv s'"
    proof (rule kpq_invI)
      show "mapping_ok (mapping s') (length (queues s')) (num_nonempty_pqs s')"
        using mapping_ok_cong [OF I(1) lm pm im] by (simp add: s'_def)
      show "num_enabled_pqs s' \<le> num_nonempty_pqs s'" using I(2) by (simp add: s'_def)
      show "queues s' ! i \<noteq> []" if "i < num_nonempty_pqs s'" for i
        using that I(3) [of i] D(2) ak by (cases "i = ?a") (simp_all add: s'_def)
      show "queues s' ! i = []" if "num_nonempty_pqs s' \<le> i" "i < length (queues s')" for i
        using that I(4) [of i] an by (simp add: s'_def nth_list_update)
      show "distinct (map fst q)" if "q \<in> set (queues s')" for q
      proof -
        from that have "q = queues s ! ?a @ [(v, key)] \<or> q \<in> set (queues s)"
          using set_update_subset_insert [of "queues s" ?a] by (auto simp: s'_def)
        then show ?thesis
        proof
          assume "q = queues s ! ?a @ [(v, key)]"
          with nc I(5) [of "queues s ! ?a"] ak show ?thesis by (simp add: heap_contains_def)
        next
          assume "q \<in> set (queues s)"
          with I(5) show ?thesis by simp
        qed
      qed
      show "num_entries s' = sum_list (map length (queues s'))"
        using I(6) ak by (simp add: s'_def sum_list_length_update)
    qed
    have e1: "entries s' p = entries s p @ [(v, key)]"
      using an ak by (simp add: entries_def s'_def im)
    have e2: "entries s' q = entries s q" if "q < ?k" "q \<noteq> p" for q
    proof -
      have "index_of ?m q \<noteq> ?a"
      proof
        assume "index_of ?m q = ?a"
        from mapping_ok_part_of_index [OF I(1) that(1) this an] pa that(2) show False by simp
      qed
      then show ?thesis by (simp add: entries_def s'_def im)
    qed
    have e3: "isEnabled s' q \<longleftrightarrow> isEnabled s q" for q
      by (simp add: isEnabled_def s'_def im)
    show ?thesis
      by (rule that [of s']) (use res inv' e1 e2 e3 in \<open>simp_all add: s'_def\<close>)
  next
    case True
    have nk: "?n < ?k"
    proof (rule ccontr)
      assume "\<not> ?n < ?k"
      with D(2) have "?n = ?k" by simp
      with I(1) have "mapping_ok ?m ?k ?k" by simp
      from mapping_ok_full [OF this p] True show False by simp
    qed
    from D(8) [of ?n] nk have pn: "part_at ?m ?n = kInvalidPart" by simp
    from I(4) [of ?n] nk have qn: "queues s ! ?n = []" by simp
    define m2 where "m2 = set_index (set_part ?m ?n p) p ?n"
    define s' where "s' = s\<lparr>queues := (queues s)[?n := [(v, key)]], mapping := m2,
                      num_nonempty_pqs := ?n + 1, num_entries := num_entries s + 1\<rparr>"
    have pm: "part_at m2 i = (if i = ?n then p else part_at ?m i)" for i
      using nk D(1) by (simp add: m2_def)
    have im: "index_of m2 q = (if q = p then ?n else index_of ?m q)" for q
      using p D(1) by (simp add: m2_def)
    have lm: "length m2 = ?k + 1" using D(1) by (simp add: m2_def)
    have res: "insert_pq s v p key = Some s'"
      unfolding insert_pq_def Let_def using p D(1,2) True nk pn qn
      by (simp add: push_def heap_contains_def s'_def m2_def)
    have c1: "part_at m2 i < ?k \<and> index_of m2 (part_at m2 i) = i" if "i < ?n + 1" for i
    proof (cases "i = ?n")
      case True
      then show ?thesis using p by (simp add: pm im)
    next
      case False
      with that have i: "i < ?n" by simp
      from D(7) [OF i] D(5) i \<open>?a = kInvalidIndex\<close> have "part_at ?m i \<noteq> p" by auto
      with D(6,7) [OF i] False show ?thesis by (simp add: pm im)
    qed
    have c2: "part_at m2 i = kInvalidPart" if "?n + 1 \<le> i" "i \<le> ?k" for i
      using that D(8) [of i] by (simp add: pm)
    have c3: "index_of m2 q < ?n + 1 \<and> part_at m2 (index_of m2 q) = q"
      if "q < ?k" "index_of m2 q \<noteq> kInvalidIndex" for q
    proof (cases "q = p")
      case True
      then show ?thesis by (simp add: pm im)
    next
      case False
      with that have v: "index_of ?m q \<noteq> kInvalidIndex" by (simp add: im)
      from D(9,10) [OF that(1) v] False show ?thesis by (simp add: pm im)
    qed
    have mok: "mapping_ok m2 ?k (?n + 1)"
      unfolding mapping_ok_def using lm nk D(3) c1 c2 c3 by auto
    have inv': "kpq_inv s'"
    proof (rule kpq_invI)
      show "mapping_ok (mapping s') (length (queues s')) (num_nonempty_pqs s')"
        using mok by (simp add: s'_def)
      show "num_enabled_pqs s' \<le> num_nonempty_pqs s'" using I(2) by (simp add: s'_def)
      show "queues s' ! i \<noteq> []" if "i < num_nonempty_pqs s'" for i
        using that I(3) [of i] nk by (cases "i = ?n") (simp_all add: s'_def)
      show "queues s' ! i = []" if "num_nonempty_pqs s' \<le> i" "i < length (queues s')" for i
        using that I(4) [of i] by (simp add: s'_def)
      show "distinct (map fst q)" if "q \<in> set (queues s')" for q
      proof -
        from that have "q = [(v, key)] \<or> q \<in> set (queues s)"
          using set_update_subset_insert [of "queues s" ?n] by (auto simp: s'_def)
        with I(5) show ?thesis by auto
      qed
      show "num_entries s' = sum_list (map length (queues s'))"
        using I(6) nk qn by (simp add: s'_def sum_list_length_update)
    qed
    have e1: "entries s' p = entries s p @ [(v, key)]"
      using nk True D(5) by (simp add: entries_def s'_def im)
    have e2: "entries s' q = entries s q" if "q < ?k" "q \<noteq> p" for q
    proof (cases "index_of ?m q = kInvalidIndex")
      case True
      with D(5) that show ?thesis by (simp add: entries_def s'_def im)
    next
      case False
      from D(9) [OF that(1) False] that show ?thesis by (simp add: entries_def s'_def im)
    qed
    have e3: "isEnabled s' q \<longleftrightarrow> isEnabled s q" for q
      using True I(2) D(5) by (simp add: isEnabled_def s'_def im)
    show ?thesis
      by (rule that [of s']) (use res inv' e1 e2 e3 in \<open>simp_all add: s'_def\<close>)
  qed
qed

subsection \<open>Retiring a part whose heap has become empty\<close>

lemma disable_step:
  assumes ok: "mapping_ok (mapping t) k n" and len: "length (queues t) = k"
    and p: "p < k" and ae: "index_of (mapping t) p < e" and en: "e \<le> n"
  obtains u where "swap t (index_of (mapping t) p) (e - 1) = Some u"
    "mapping_ok (mapping u) k n" "length (queues u) = k"
    "num_entries u = num_entries t" "num_enabled_pqs u = num_enabled_pqs t"
    "num_nonempty_pqs u = num_nonempty_pqs t"
    "index_of (mapping u) p = e - 1"
    "\<And>q. q < k \<Longrightarrow> q \<noteq> p \<Longrightarrow> index_of (mapping u) q < e - 1 \<longleftrightarrow> index_of (mapping t) q < e"
    "\<And>q. q < k \<Longrightarrow> index_of (mapping t) q \<noteq> kInvalidIndex \<Longrightarrow>
        queues u ! index_of (mapping u) q = queues t ! index_of (mapping t) q"
    "\<And>q. q < k \<Longrightarrow>
        (index_of (mapping u) q = kInvalidIndex) = (index_of (mapping t) q = kInvalidIndex)"
    "\<And>i. n \<le> i \<Longrightarrow> queues u ! i = queues t ! i"
    "mset (queues u) = mset (queues t)"
proof -
  let ?m = "mapping t"
  let ?a = "index_of ?m p"
  note D = mapping_okD [OF ok]
  from ae en have an: "?a < n" and e1: "e - 1 < n" by simp_all
  from an D(5) have va: "?a \<noteq> kInvalidIndex" by simp
  from D(10) [OF p va] have pa: "part_at ?m ?a = p" .
  obtain u where
    sw: "swap t ?a (e - 1) = Some u" and
    uok: "mapping_ok (mapping u) k n" and ulen: "length (queues u) = k" and
    ucnt: "num_entries u = num_entries t" "num_enabled_pqs u = num_enabled_pqs t"
      "num_nonempty_pqs u = num_nonempty_pqs t" and
    ui: "\<And>q. index_of (mapping u) q =
        (if q = part_at ?m ?a then e - 1
         else if q = part_at ?m (e - 1) then ?a else index_of ?m q)" and
    ufollow: "\<And>q. q < k \<Longrightarrow> index_of ?m q \<noteq> kInvalidIndex \<Longrightarrow>
        queues u ! index_of (mapping u) q = queues t ! index_of ?m q" and
    uvalid: "\<And>q. q < k \<Longrightarrow>
        (index_of (mapping u) q = kInvalidIndex) = (index_of ?m q = kInvalidIndex)" and
    ubeyond: "\<And>i. n \<le> i \<Longrightarrow> queues u ! i = queues t ! i" and
    ums: "mset (queues u) = mset (queues t)"
    by (rule swap_effect [OF ok len an e1], rule that) assumption+
  have ip: "index_of (mapping u) p = e - 1" using pa by (simp add: ui)
  have fr: "index_of (mapping u) q < e - 1 \<longleftrightarrow> index_of ?m q < e" if "q < k" "q \<noteq> p" for q
  proof (cases "q = part_at ?m (e - 1)")
    case True
    from D(7) [OF e1] True have iq: "index_of ?m q = e - 1" by simp
    moreover from True that(2) pa have "?a \<noteq> e - 1" by auto
    ultimately show ?thesis using True that(2) pa ae by (simp add: ui)
  next
    case False
    have "index_of ?m q \<noteq> e - 1"
    proof
      assume "index_of ?m q = e - 1"
      from mapping_ok_part_of_index [OF ok that(1) this e1] False show False by simp
    qed
    then show ?thesis using False that(2) pa by (auto simp: ui)
  qed
  show ?thesis
    by (rule that [OF sw uok ulen ucnt ip fr ufollow uvalid ubeyond ums])
qed

lemma unuse_step:
  assumes ok: "mapping_ok (mapping t) k n" and len: "length (queues t) = k"
    and p: "p < k" and idx: "index_of (mapping t) p < n"
  obtains t' where
    "(swap t (index_of (mapping t) p) (n - 1) \<bind> (\<lambda>u. markUnused u p)) = Some t'"
    "mapping_ok (mapping t') k (n - 1)" "length (queues t') = k"
    "num_entries t' = num_entries t" "num_enabled_pqs t' = num_enabled_pqs t"
    "num_nonempty_pqs t' = num_nonempty_pqs t"
    "index_of (mapping t') p = kInvalidIndex"
    "\<And>q e. q < k \<Longrightarrow> q \<noteq> p \<Longrightarrow> e \<le> index_of (mapping t) p \<Longrightarrow>
        index_of (mapping t') q < e \<longleftrightarrow> index_of (mapping t) q < e"
    "\<And>q. q < k \<Longrightarrow> q \<noteq> p \<Longrightarrow> index_of (mapping t) q \<noteq> kInvalidIndex \<Longrightarrow>
        queues t' ! index_of (mapping t') q = queues t ! index_of (mapping t) q"
    "\<And>q. q < k \<Longrightarrow> q \<noteq> p \<Longrightarrow>
        (index_of (mapping t') q = kInvalidIndex) = (index_of (mapping t) q = kInvalidIndex)"
    "queues t' ! (n - 1) = queues t ! index_of (mapping t) p"
    "\<And>i. n \<le> i \<Longrightarrow> queues t' ! i = queues t ! i"
    "mset (queues t') = mset (queues t)"
proof -
  let ?m = "mapping t"
  let ?a = "index_of ?m p"
  note D = mapping_okD [OF ok]
  from idx have n1: "n - 1 < n" by simp
  obtain t' where
    r: "(swap t ?a (n - 1) \<bind> (\<lambda>u. markUnused u p)) = Some t'" and
    tok: "mapping_ok (mapping t') k (n - 1)" and tlen: "length (queues t') = k" and
    tcnt: "num_entries t' = num_entries t" "num_enabled_pqs t' = num_enabled_pqs t"
      "num_nonempty_pqs t' = num_nonempty_pqs t" and
    tip: "index_of (mapping t') p = kInvalidIndex" and
    ti: "\<And>q. q \<noteq> p \<Longrightarrow> index_of (mapping t') q =
        (if q = part_at ?m (n - 1) then ?a else index_of ?m q)" and
    tfollow: "\<And>q. q < k \<Longrightarrow> q \<noteq> p \<Longrightarrow> index_of ?m q \<noteq> kInvalidIndex \<Longrightarrow>
        queues t' ! index_of (mapping t') q = queues t ! index_of ?m q" and
    tvalid: "\<And>q. q < k \<Longrightarrow> q \<noteq> p \<Longrightarrow>
        (index_of (mapping t') q = kInvalidIndex) = (index_of ?m q = kInvalidIndex)" and
    tlast: "queues t' ! (n - 1) = queues t ! ?a" and
    tbeyond: "\<And>i. n \<le> i \<Longrightarrow> queues t' ! i = queues t ! i" and
    tms: "mset (queues t') = mset (queues t)"
    by (rule unuse_effect [OF ok len p idx], rule that) assumption+
  have fr: "index_of (mapping t') q < e \<longleftrightarrow> index_of ?m q < e"
    if "q < k" "q \<noteq> p" "e \<le> ?a" for q e
  proof (cases "q = part_at ?m (n - 1)")
    case True
    from D(7) [OF n1] True have "index_of ?m q = n - 1" by simp
    with True that idx show ?thesis by (simp add: ti)
  next
    case False
    with that show ?thesis by (simp add: ti)
  qed
  show ?thesis
    by (rule that [OF r tok tlen tcnt tip fr tfollow tvalid tlast tbeyond tms])
qed

lemma isEnabled_imp_used:
  assumes "kpq_inv s" "isEnabled s p"
  shows "index_of (mapping s) p < num_nonempty_pqs s"
  using kpq_invD(2) [OF assms(1)] assms(2) by (simp add: isEnabled_def)

lemma retired_final:
  fixes s t :: "('id, 'key) KWayPriorityQueue"
  defines "k \<equiv> length (queues s)" and "n \<equiv> num_nonempty_pqs s"
  assumes inv: "kpq_inv s" and p: "p < k" and an: "index_of (mapping s) p < n"
    and len1: "length (queues s ! index_of (mapping s) p) = 1"
    and tok: "mapping_ok (mapping t) k (n - 1)" and tlen: "length (queues t) = k"
    and tcnt: "num_entries t = num_entries s" "num_nonempty_pqs t = n - 1"
      "num_enabled_pqs t \<le> n - 1"
    and tip: "index_of (mapping t) p = kInvalidIndex"
    and ten: "\<And>q. q < k \<Longrightarrow> q \<noteq> p \<Longrightarrow>
        index_of (mapping t) q < num_enabled_pqs t \<longleftrightarrow> index_of (mapping s) q < num_enabled_pqs s"
    and tfollow: "\<And>q. q < k \<Longrightarrow> q \<noteq> p \<Longrightarrow> index_of (mapping s) q \<noteq> kInvalidIndex \<Longrightarrow>
        queues t ! index_of (mapping t) q = queues s ! index_of (mapping s) q"
    and tvalid: "\<And>q. q < k \<Longrightarrow> q \<noteq> p \<Longrightarrow>
        (index_of (mapping t) q = kInvalidIndex) = (index_of (mapping s) q = kInvalidIndex)"
    and tlast: "queues t ! (n - 1) = []"
    and tbeyond: "\<And>i. n \<le> i \<Longrightarrow> i < k \<Longrightarrow> queues t ! i = []"
    and tms: "mset (queues t) = mset ((queues s)[index_of (mapping s) p := []])"
  shows "kpq_inv (t\<lparr>num_entries := num_entries t - 1\<rparr>)"
    and "entries (t\<lparr>num_entries := num_entries t - 1\<rparr>) p = []"
    and "isUnused (t\<lparr>num_entries := num_entries t - 1\<rparr>) p"
    and "\<not> isEnabled (t\<lparr>num_entries := num_entries t - 1\<rparr>) p"
    and "\<And>q. q < k \<Longrightarrow> q \<noteq> p \<Longrightarrow> entries (t\<lparr>num_entries := num_entries t - 1\<rparr>) q = entries s q"
    and "\<And>q. q < k \<Longrightarrow> q \<noteq> p \<Longrightarrow>
          isEnabled (t\<lparr>num_entries := num_entries t - 1\<rparr>) q \<longleftrightarrow> isEnabled s q"
proof -
  let ?t = "t\<lparr>num_entries := num_entries t - 1\<rparr>"
  let ?a = "index_of (mapping s) p"
  note I = kpq_invD [OF inv, folded k_def n_def]
  note D = mapping_okD [OF I(1)]
  note T = mapping_okD [OF tok]
  from an D(2) have ak: "?a < k" by simp
  have ne: "queues t ! i \<noteq> []" if "i < n - 1" for i
  proof -
    let ?q = "part_at (mapping t) i"
    from T(6,7) [OF that] have q: "?q < k" "index_of (mapping t) ?q = i" by simp_all
    with tip that T(5) have qp: "?q \<noteq> p" by auto
    from q that T(5) have "index_of (mapping t) ?q \<noteq> kInvalidIndex" by simp
    with tvalid [OF q(1) qp] have v: "index_of (mapping s) ?q \<noteq> kInvalidIndex" by simp
    from tfollow [OF q(1) qp v] q(2) I(3) [OF D(9) [OF q(1) v]] show ?thesis by simp
  qed
  have set_t: "set (queues t) \<subseteq> insert [] (set (queues s))"
    using mset_eq_setD [OF tms] set_update_subset_insert [of "queues s" ?a "[]"] by simp
  have sum_t: "sum_list (map length (queues t)) = sum_list (map length (queues s)) - 1"
    using sum_list_length_mset [OF tms] ak len1 by (simp add: sum_list_length_update k_def)
  show inv': "kpq_inv ?t"
  proof (rule kpq_invI)
    show "mapping_ok (mapping ?t) (length (queues ?t)) (num_nonempty_pqs ?t)"
      using tok tlen tcnt by simp
    show "num_enabled_pqs ?t \<le> num_nonempty_pqs ?t" using tcnt by simp
    show "queues ?t ! i \<noteq> []" if "i < num_nonempty_pqs ?t" for i
      using that ne tcnt by simp
    show "queues ?t ! i = []" if "num_nonempty_pqs ?t \<le> i" "i < length (queues ?t)" for i
      using that tlast tbeyond [of i] tcnt tlen by (cases "i = n - 1") simp_all
    show "distinct (map fst q)" if "q \<in> set (queues ?t)" for q
      using that set_t I(5) [of q] by auto
    show "num_entries ?t = sum_list (map length (queues ?t))"
      using I(6) tcnt sum_t by simp
  qed
  show "entries ?t p = []" using tip T(5) tcnt by (simp add: entries_def)
  show "isUnused ?t p" using tip by (simp add: isUnused_def)
  show "\<not> isEnabled ?t p" using tip T(5) tcnt by (simp add: isEnabled_def)
  show "entries ?t q = entries s q" if "q < k" "q \<noteq> p" for q
  proof (cases "index_of (mapping s) q = kInvalidIndex")
    case True
    with tvalid [OF that] T(5) D(5) tcnt show ?thesis by (simp add: entries_def n_def)
  next
    case False
    with tvalid [OF that] have "index_of (mapping t) q \<noteq> kInvalidIndex" by simp
    with T(9) [OF that(1)] D(9) [OF that(1) False] tfollow [OF that False] tcnt
    show ?thesis by (simp add: entries_def n_def)
  qed
  show "isEnabled ?t q \<longleftrightarrow> isEnabled s q" if "q < k" "q \<noteq> p" for q
    using ten [OF that] by (simp add: isEnabled_def)
qed

lemma retireEnabledPart_effect:
  fixes s :: "('id, 'key) KWayPriorityQueue"
  defines "k \<equiv> length (queues s)"
  assumes inv: "kpq_inv s" and p: "p < k" and en: "isEnabled s p"
    and len1: "length (queues s ! index_of (mapping s) p) = 1"
  obtains t where
    "retireEnabledPart (s\<lparr>queues := (queues s)[index_of (mapping s) p := []]\<rparr>) p = Some t"
    "kpq_inv (t\<lparr>num_entries := num_entries t - 1\<rparr>)"
    "length (queues t) = k" "num_entries t = num_entries s"
    "entries (t\<lparr>num_entries := num_entries t - 1\<rparr>) p = []"
    "\<not> isEnabled (t\<lparr>num_entries := num_entries t - 1\<rparr>) p"
    "\<And>q. q < k \<Longrightarrow> q \<noteq> p \<Longrightarrow> entries (t\<lparr>num_entries := num_entries t - 1\<rparr>) q = entries s q"
    "\<And>q. q < k \<Longrightarrow> q \<noteq> p \<Longrightarrow>
          isEnabled (t\<lparr>num_entries := num_entries t - 1\<rparr>) q \<longleftrightarrow> isEnabled s q"
proof -
  let ?m = "mapping s" and ?n = "num_nonempty_pqs s" and ?e = "num_enabled_pqs s"
  let ?a = "index_of ?m p"
  note I = kpq_invD [OF inv, folded k_def]
  note D = mapping_okD [OF I(1)]
  from en have ae: "?a < ?e" by (simp add: isEnabled_def)
  with I(2) have an: "?a < ?n" by simp
  with D(2) have ak: "?a < k" by simp
  from an D(5) have va: "?a \<noteq> kInvalidIndex" by simp
  define s1 where "s1 = s\<lparr>queues := (queues s)[?a := []]\<rparr>"
  define s1' where "s1' = s1\<lparr>num_enabled_pqs := num_enabled_pqs s1 - 1,
                            num_nonempty_pqs := num_nonempty_pqs s1 - 1\<rparr>"
  have s1': "mapping s1' = ?m" "queues s1' = (queues s)[?a := []]" "num_entries s1' = num_entries s"
    "num_enabled_pqs s1' = ?e - 1" "num_nonempty_pqs s1' = ?n - 1"
    by (simp_all add: s1'_def s1_def)
  have ok1: "mapping_ok (mapping s1') k ?n" and len1': "length (queues s1') = k"
    and ae1: "index_of (mapping s1') p < ?e"
    using I(1) ae by (simp_all add: s1' k_def)
  obtain u where
    sw: "swap s1' (index_of (mapping s1') p) (?e - 1) = Some u" and
    uok: "mapping_ok (mapping u) k ?n" and ulen: "length (queues u) = k" and
    ucnt: "num_entries u = num_entries s1'" "num_enabled_pqs u = num_enabled_pqs s1'"
      "num_nonempty_pqs u = num_nonempty_pqs s1'" and
    uip: "index_of (mapping u) p = ?e - 1" and
    ufr: "\<And>q. q < k \<Longrightarrow> q \<noteq> p \<Longrightarrow>
        index_of (mapping u) q < ?e - 1 \<longleftrightarrow> index_of (mapping s1') q < ?e" and
    ufollow: "\<And>q. q < k \<Longrightarrow> index_of (mapping s1') q \<noteq> kInvalidIndex \<Longrightarrow>
        queues u ! index_of (mapping u) q = queues s1' ! index_of (mapping s1') q" and
    uvalid: "\<And>q. q < k \<Longrightarrow>
        (index_of (mapping u) q = kInvalidIndex) = (index_of (mapping s1') q = kInvalidIndex)" and
    ubeyond: "\<And>i. ?n \<le> i \<Longrightarrow> queues u ! i = queues s1' ! i" and
    ums: "mset (queues u) = mset (queues s1')"
    by (rule disable_step [OF ok1 len1' p ae1 I(2)], rule that) assumption+
  from uip ae I(2) have uidx: "index_of (mapping u) p < ?n" by simp
  obtain t where
    r: "(swap u (index_of (mapping u) p) (?n - 1) \<bind> (\<lambda>w. markUnused w p)) = Some t" and
    tok: "mapping_ok (mapping t) k (?n - 1)" and tlen: "length (queues t) = k" and
    tcnt: "num_entries t = num_entries u" "num_enabled_pqs t = num_enabled_pqs u"
      "num_nonempty_pqs t = num_nonempty_pqs u" and
    tip: "index_of (mapping t) p = kInvalidIndex" and
    tfr: "\<And>q e. q < k \<Longrightarrow> q \<noteq> p \<Longrightarrow> e \<le> index_of (mapping u) p \<Longrightarrow>
        index_of (mapping t) q < e \<longleftrightarrow> index_of (mapping u) q < e" and
    tfollow: "\<And>q. q < k \<Longrightarrow> q \<noteq> p \<Longrightarrow> index_of (mapping u) q \<noteq> kInvalidIndex \<Longrightarrow>
        queues t ! index_of (mapping t) q = queues u ! index_of (mapping u) q" and
    tvalid: "\<And>q. q < k \<Longrightarrow> q \<noteq> p \<Longrightarrow>
        (index_of (mapping t) q = kInvalidIndex) = (index_of (mapping u) q = kInvalidIndex)" and
    tlast: "queues t ! (?n - 1) = queues u ! index_of (mapping u) p" and
    tbeyond: "\<And>i. ?n \<le> i \<Longrightarrow> queues t ! i = queues u ! i" and
    tms: "mset (queues t) = mset (queues u)"
    by (rule unuse_step [OF uok ulen p uidx], rule that) assumption+
  have res: "retireEnabledPart s1 p = Some t"
  proof -
    have "isEnabled s1 p" using en by (simp add: isEnabled_def s1_def)
    moreover have "swap s1' (index_of (mapping s1') p) (num_enabled_pqs s1') = Some u"
      using sw by (simp add: s1')
    moreover have "(swap u (index_of (mapping u) p) (num_nonempty_pqs u) \<bind> (\<lambda>w. markUnused w p)) = Some t"
      using r ucnt by (simp add: s1')
    ultimately show ?thesis
      unfolding retireEnabledPart_def Let_def s1'_def [symmetric] by simp
  qed
  have notp: "index_of ?m q \<noteq> ?a" if "q < k" "q \<noteq> p" for q
  proof
    assume "index_of ?m q = ?a"
    from mapping_ok_part_of_index [OF I(1) that(1) this an] D(10) [OF p va] that(2)
    show False by simp
  qed
  have F1: "index_of (mapping t) q < num_enabled_pqs t \<longleftrightarrow> index_of ?m q < ?e"
    if "q < k" "q \<noteq> p" for q
    using tfr [OF that, of "?e - 1"] ufr [OF that] uip tcnt ucnt by (simp add: s1')
  have F2: "queues t ! index_of (mapping t) q = queues s ! index_of ?m q"
    if "q < k" "q \<noteq> p" "index_of ?m q \<noteq> kInvalidIndex" for q
  proof -
    from uvalid [OF that(1)] that(3) have "index_of (mapping u) q \<noteq> kInvalidIndex"
      by (simp add: s1')
    from tfollow [OF that(1,2) this] ufollow [OF that(1)] that(3) notp [OF that(1,2)]
    show ?thesis by (simp add: s1')
  qed
  have F3: "(index_of (mapping t) q = kInvalidIndex) = (index_of ?m q = kInvalidIndex)"
    if "q < k" "q \<noteq> p" for q
    using tvalid [OF that] uvalid [OF that(1)] by (simp add: s1')
  have F4: "queues t ! (?n - 1) = []"
    using tlast ufollow [OF p] va ak by (simp add: s1' k_def)
  have F5: "queues t ! i = []" if "?n \<le> i" "i < k" for i
    using tbeyond [OF that(1)] ubeyond [OF that(1)] I(4) [OF that] that an by (simp add: s1')
  have F6: "mset (queues t) = mset ((queues s)[?a := []])"
    using tms ums by (simp add: s1')
  have C: "num_entries t = num_entries s" "num_nonempty_pqs t = ?n - 1"
    "num_enabled_pqs t \<le> ?n - 1"
    using tcnt ucnt I(2) by (simp_all add: s1')
  note R = retired_final [OF inv p [unfolded k_def] an len1 tok [unfolded k_def] tlen [unfolded k_def]
      C tip F1 [unfolded k_def] F2 [unfolded k_def] F3 [unfolded k_def] F4 F5 [unfolded k_def] F6]
  show ?thesis
    by (rule that [OF res [unfolded s1_def] R(1) tlen C(1) R(2) R(4) R(5) [folded k_def] R(6) [folded k_def]])
qed

lemma retirePart_effect:
  fixes s :: "('id, 'key) KWayPriorityQueue"
  defines "k \<equiv> length (queues s)"
  assumes inv: "kpq_inv s" and p: "p < k" and an: "index_of (mapping s) p < num_nonempty_pqs s"
    and len1: "length (queues s ! index_of (mapping s) p) = 1"
  obtains t where
    "retirePart (s\<lparr>queues := (queues s)[index_of (mapping s) p := []]\<rparr>) p = Some t"
    "kpq_inv (t\<lparr>num_entries := num_entries t - 1\<rparr>)"
    "length (queues t) = k" "num_entries t = num_entries s"
    "entries (t\<lparr>num_entries := num_entries t - 1\<rparr>) p = []"
    "\<not> isEnabled (t\<lparr>num_entries := num_entries t - 1\<rparr>) p"
    "\<And>q. q < k \<Longrightarrow> q \<noteq> p \<Longrightarrow> entries (t\<lparr>num_entries := num_entries t - 1\<rparr>) q = entries s q"
    "\<And>q. q < k \<Longrightarrow> q \<noteq> p \<Longrightarrow>
          isEnabled (t\<lparr>num_entries := num_entries t - 1\<rparr>) q \<longleftrightarrow> isEnabled s q"
proof -
  let ?m = "mapping s" and ?n = "num_nonempty_pqs s" and ?e = "num_enabled_pqs s"
  let ?a = "index_of ?m p"
  note I = kpq_invD [OF inv, folded k_def]
  note D = mapping_okD [OF I(1)]
  from an D(2) have ak: "?a < k" by simp
  from an D(5) have va: "?a \<noteq> kInvalidIndex" by simp
  define s1 where "s1 = s\<lparr>queues := (queues s)[?a := []]\<rparr>"
  have notp: "index_of ?m q \<noteq> ?a" if "q < k" "q \<noteq> p" for q
  proof
    assume "index_of ?m q = ?a"
    from mapping_ok_part_of_index [OF I(1) that(1) this an] D(10) [OF p va] that(2)
    show False by simp
  qed
  \<comment> \<open>the state before the last swap, in both cases\<close>
  have "\<exists>s3 e'. retirePart s1 p =
          (swap s3 (index_of (mapping s3) p) (?n - 1) \<bind> (\<lambda>w. markUnused w p)) \<and>
      mapping_ok (mapping s3) k ?n \<and> length (queues s3) = k \<and>
      num_entries s3 = num_entries s \<and> num_enabled_pqs s3 = e' \<and> e' \<le> ?n - 1 \<and>
      num_nonempty_pqs s3 = ?n - 1 \<and>
      index_of (mapping s3) p < ?n \<and> e' \<le> index_of (mapping s3) p \<and>
      (\<forall>q. q < k \<longrightarrow> q \<noteq> p \<longrightarrow> (index_of (mapping s3) q < e' \<longleftrightarrow> index_of ?m q < ?e)) \<and>
      (\<forall>q. q < k \<longrightarrow> index_of ?m q \<noteq> kInvalidIndex \<longrightarrow>
          queues s3 ! index_of (mapping s3) q = (queues s)[?a := []] ! index_of ?m q) \<and>
      (\<forall>q. q < k \<longrightarrow> (index_of (mapping s3) q = kInvalidIndex) = (index_of ?m q = kInvalidIndex)) \<and>
      (\<forall>i. ?n \<le> i \<longrightarrow> queues s3 ! i = (queues s)[?a := []] ! i) \<and>
      mset (queues s3) = mset ((queues s)[?a := []])"
  proof (cases "isEnabled s p")
    case False
    then have ea: "?e \<le> ?a" by (simp add: isEnabled_def)
    define s3 where "s3 = s1\<lparr>queues := (queues s1)[?a := []], num_nonempty_pqs := ?n - 1\<rparr>"
    have s3: "mapping s3 = ?m" "queues s3 = (queues s)[?a := []]" "num_entries s3 = num_entries s"
      "num_enabled_pqs s3 = ?e" "num_nonempty_pqs s3 = ?n - 1"
      by (simp_all add: s3_def s1_def)
    have "retirePart s1 p =
          (swap s3 (index_of (mapping s3) p) (?n - 1) \<bind> (\<lambda>w. markUnused w p))"
      using False ak unfolding retirePart_def Let_def
      by (simp add: isEnabled_def s1_def s3_def k_def)
    moreover have "?e \<le> ?n - 1" using ea an by simp
    ultimately show ?thesis
      using I(1) an ea by (intro exI [of _ s3] exI [of _ ?e]) (simp add: s3 k_def)
  next
    case True
    then have ae: "?a < ?e" by (simp add: isEnabled_def)
    define s' where "s' = s1\<lparr>num_enabled_pqs := num_enabled_pqs s1 - 1\<rparr>"
    have s': "mapping s' = ?m" "queues s' = (queues s)[?a := []]" "num_entries s' = num_entries s"
      "num_enabled_pqs s' = ?e - 1" "num_nonempty_pqs s' = ?n"
      by (simp_all add: s'_def s1_def)
    have ok1: "mapping_ok (mapping s') k ?n" and len1': "length (queues s') = k"
      and ae1: "index_of (mapping s') p < ?e"
      using I(1) ae by (simp_all add: s' k_def)
    obtain u where
      sw: "swap s' (index_of (mapping s') p) (?e - 1) = Some u" and
      uok: "mapping_ok (mapping u) k ?n" and ulen: "length (queues u) = k" and
      ucnt: "num_entries u = num_entries s'" "num_enabled_pqs u = num_enabled_pqs s'"
        "num_nonempty_pqs u = num_nonempty_pqs s'" and
      uip: "index_of (mapping u) p = ?e - 1" and
      ufr: "\<And>q. q < k \<Longrightarrow> q \<noteq> p \<Longrightarrow>
          index_of (mapping u) q < ?e - 1 \<longleftrightarrow> index_of (mapping s') q < ?e" and
      ufollow: "\<And>q. q < k \<Longrightarrow> index_of (mapping s') q \<noteq> kInvalidIndex \<Longrightarrow>
          queues u ! index_of (mapping u) q = queues s' ! index_of (mapping s') q" and
      uvalid: "\<And>q. q < k \<Longrightarrow>
          (index_of (mapping u) q = kInvalidIndex) = (index_of (mapping s') q = kInvalidIndex)" and
      ubeyond: "\<And>i. ?n \<le> i \<Longrightarrow> queues u ! i = queues s' ! i" and
      ums: "mset (queues u) = mset (queues s')"
      by (rule disable_step [OF ok1 len1' p ae1 I(2)], rule that) assumption+
    from ufollow [OF p] va ak uip have ue: "queues u ! (?e - 1) = []" by (simp add: s' k_def)
    from ae I(2) D(2) ulen have e1k: "?e - 1 < length (queues u)" by simp
    from ue e1k have same: "(queues u)[?e - 1 := []] = queues u"
      by (simp add: list_update_same_conv)
    define s3 where "s3 = u\<lparr>queues := (queues u)[index_of (mapping u) p := []],
                            num_nonempty_pqs := num_nonempty_pqs u - 1\<rparr>"
    have s3: "mapping s3 = mapping u" "queues s3 = queues u" "num_entries s3 = num_entries s"
      "num_enabled_pqs s3 = ?e - 1" "num_nonempty_pqs s3 = ?n - 1"
      using ucnt same uip by (simp_all add: s3_def s')
    have "isEnabled s1 p" using True by (simp add: isEnabled_def s1_def)
    moreover have "swap s' (index_of (mapping s') p) (num_enabled_pqs s') = Some u"
      using sw by (simp add: s')
    ultimately have "retirePart s1 p =
          (swap s3 (index_of (mapping s3) p) (?n - 1) \<bind> (\<lambda>w. markUnused w p))"
      unfolding retirePart_def Let_def s'_def [symmetric]
      using e1k uip ucnt by (simp add: s3_def s')
    moreover have "?e - 1 \<le> ?n - 1" using I(2) by simp
    moreover have "index_of (mapping u) p < ?n" using uip ae I(2) by simp
    ultimately show ?thesis
      using uok ulen uip ufr ufollow uvalid ubeyond ums
      by (intro exI [of _ s3] exI [of _ "?e - 1"]) (simp add: s3 s')
  qed
  then obtain s3 e' where
    rp: "retirePart s1 p =
          (swap s3 (index_of (mapping s3) p) (?n - 1) \<bind> (\<lambda>w. markUnused w p))" and
    ok3: "mapping_ok (mapping s3) k ?n" and len3: "length (queues s3) = k" and
    cnt3: "num_entries s3 = num_entries s" "num_enabled_pqs s3 = e'" "e' \<le> ?n - 1"
      "num_nonempty_pqs s3 = ?n - 1" and
    idx3: "index_of (mapping s3) p < ?n" and ea3: "e' \<le> index_of (mapping s3) p" and
    fr3: "\<And>q. q < k \<Longrightarrow> q \<noteq> p \<Longrightarrow> (index_of (mapping s3) q < e' \<longleftrightarrow> index_of ?m q < ?e)" and
    follow3: "\<And>q. q < k \<Longrightarrow> index_of ?m q \<noteq> kInvalidIndex \<Longrightarrow>
          queues s3 ! index_of (mapping s3) q = (queues s)[?a := []] ! index_of ?m q" and
    valid3: "\<And>q. q < k \<Longrightarrow> (index_of (mapping s3) q = kInvalidIndex) = (index_of ?m q = kInvalidIndex)" and
    beyond3: "\<And>i. ?n \<le> i \<Longrightarrow> queues s3 ! i = (queues s)[?a := []] ! i" and
    ms3: "mset (queues s3) = mset ((queues s)[?a := []])"
    by blast
  obtain t where
    r: "(swap s3 (index_of (mapping s3) p) (?n - 1) \<bind> (\<lambda>w. markUnused w p)) = Some t" and
    tok: "mapping_ok (mapping t) k (?n - 1)" and tlen: "length (queues t) = k" and
    tcnt: "num_entries t = num_entries s3" "num_enabled_pqs t = num_enabled_pqs s3"
      "num_nonempty_pqs t = num_nonempty_pqs s3" and
    tip: "index_of (mapping t) p = kInvalidIndex" and
    tfr: "\<And>q e. q < k \<Longrightarrow> q \<noteq> p \<Longrightarrow> e \<le> index_of (mapping s3) p \<Longrightarrow>
        index_of (mapping t) q < e \<longleftrightarrow> index_of (mapping s3) q < e" and
    tfollow: "\<And>q. q < k \<Longrightarrow> q \<noteq> p \<Longrightarrow> index_of (mapping s3) q \<noteq> kInvalidIndex \<Longrightarrow>
        queues t ! index_of (mapping t) q = queues s3 ! index_of (mapping s3) q" and
    tvalid: "\<And>q. q < k \<Longrightarrow> q \<noteq> p \<Longrightarrow>
        (index_of (mapping t) q = kInvalidIndex) = (index_of (mapping s3) q = kInvalidIndex)" and
    tlast: "queues t ! (?n - 1) = queues s3 ! index_of (mapping s3) p" and
    tbeyond: "\<And>i. ?n \<le> i \<Longrightarrow> queues t ! i = queues s3 ! i" and
    tms: "mset (queues t) = mset (queues s3)"
    by (rule unuse_step [OF ok3 len3 p idx3], rule that) assumption+
  have res: "retirePart s1 p = Some t" using rp r by simp
  have F1: "index_of (mapping t) q < num_enabled_pqs t \<longleftrightarrow> index_of ?m q < ?e"
    if "q < k" "q \<noteq> p" for q
    using tfr [OF that ea3] fr3 [OF that] tcnt cnt3 by simp
  have F2: "queues t ! index_of (mapping t) q = queues s ! index_of ?m q"
    if "q < k" "q \<noteq> p" "index_of ?m q \<noteq> kInvalidIndex" for q
  proof -
    from valid3 [OF that(1)] that(3) have "index_of (mapping s3) q \<noteq> kInvalidIndex" by simp
    from tfollow [OF that(1,2) this] follow3 [OF that(1,3)] notp [OF that(1,2)]
    show ?thesis by simp
  qed
  have F3: "(index_of (mapping t) q = kInvalidIndex) = (index_of ?m q = kInvalidIndex)"
    if "q < k" "q \<noteq> p" for q
    using tvalid [OF that] valid3 [OF that(1)] by simp
  have F4: "queues t ! (?n - 1) = []"
    using tlast follow3 [OF p va] ak by (simp add: k_def)
  have F5: "queues t ! i = []" if "?n \<le> i" "i < k" for i
    using tbeyond [OF that(1)] beyond3 [OF that(1)] I(4) [OF that] that an by simp
  have F6: "mset (queues t) = mset ((queues s)[?a := []])"
    using tms ms3 by simp
  have C: "num_entries t = num_entries s" "num_nonempty_pqs t = ?n - 1"
    "num_enabled_pqs t \<le> ?n - 1"
    using tcnt cnt3 by simp_all
  note R = retired_final [OF inv p [unfolded k_def] an len1 tok [unfolded k_def] tlen [unfolded k_def]
      C tip F1 [unfolded k_def] F2 [unfolded k_def] F3 [unfolded k_def] F4 F5 [unfolded k_def] F6]
  show ?thesis
    by (rule that [OF res [unfolded s1_def] R(1) tlen C(1) R(2) R(4) R(5) [folded k_def] R(6) [folded k_def]])
qed

subsection \<open>The heaps, and the operations that remove an entry\<close>

lemma heap_max_in: "heap_max m xs \<in> set (m # xs)"
  by (induction xs arbitrary: m) auto

lemma heap_max_ge: "x \<in> set (m # xs) \<Longrightarrow> snd x \<le> snd (heap_max m xs)"
proof (induction xs arbitrary: m x)
  case Nil
  then show ?case by simp
next
  case (Cons y ys)
  let ?m' = "if snd m < snd y then y else m"
  have c: "snd ?m' \<le> snd (heap_max ?m' ys)"
    by (rule Cons.IH) simp
  have a: "snd m \<le> snd (heap_max ?m' ys)"
    using c by (auto split: if_splits)
  have b: "snd y \<le> snd (heap_max ?m' ys)"
    using c by (auto split: if_splits)
  from Cons.prems consider "x = m" | "x = y" | "x \<in> set ys" by auto
  then show ?case
  proof cases
    case 1 with a show ?thesis by simp
  next
    case 2 with b show ?thesis by simp
  next
    case 3
    with Cons.IH [of x ?m'] show ?thesis by simp
  qed
qed

lemma top_Some:
  assumes "h \<noteq> []"
  obtains v key where "heap_top h = Some (v, key)" "(v, key) \<in> set h" "\<And>x. x \<in> set h \<Longrightarrow> snd x \<le> key"
proof -
  from assms obtain x xs where h: "h = x # xs" by (cases h) auto
  obtain v key where e: "heap_max x xs = (v, key)" by (cases "heap_max x xs")
  show ?thesis
  proof (rule that [of v key])
    show "heap_top h = Some (v, key)" by (simp add: h e)
    show "(v, key) \<in> set h" using heap_max_in [of x xs] by (simp add: h e)
    show "snd y \<le> key" if "y \<in> set h" for y
      using heap_max_ge [of y x xs] that by (simp add: h e)
  qed
qed

lemma top_in: "heap_top h = Some e \<Longrightarrow> e \<in> set h"
proof (cases h)
  case Nil
  then show "heap_top h = Some e \<Longrightarrow> e \<in> set h" by simp
next
  case (Cons x xs)
  then show "heap_top h = Some e \<Longrightarrow> e \<in> set h" using heap_max_in [of x xs] by auto
qed

lemma top_ge: "heap_top h = Some e \<Longrightarrow> x \<in> set h \<Longrightarrow> snd x \<le> snd e"
proof (cases h)
  case Nil
  then show "heap_top h = Some e \<Longrightarrow> x \<in> set h \<Longrightarrow> snd x \<le> snd e" by simp
next
  case (Cons y ys)
  then show "heap_top h = Some e \<Longrightarrow> x \<in> set h \<Longrightarrow> snd x \<le> snd e"
    using heap_max_ge [of x y ys] by auto
qed

lemma distinct_map_remove1: "distinct (map f xs) \<Longrightarrow> distinct (map f (remove1 x xs))"
  by (induction xs) (auto simp: image_iff dest: notin_set_remove1)

lemma length_filter_fst:
  "distinct (map fst h) \<Longrightarrow> v \<in> fst ` set h \<Longrightarrow>
     length (filter (\<lambda>e. fst e \<noteq> v) h) = length h - 1"
proof (induction h)
  case Nil
  then show ?case by simp
next
  case (Cons x xs)
  show ?case
  proof (cases "fst x = v")
    case True
    with Cons.prems have "v \<notin> fst ` set xs" by auto
    then have "filter (\<lambda>e. fst e \<noteq> v) xs = xs" by (auto simp: filter_id_conv image_iff)
    with True show ?thesis by simp
  next
    case False
    with Cons.prems have v: "v \<in> fst ` set xs" and d: "distinct (map fst xs)" by auto
    from v have "xs \<noteq> []" by auto
    with Cons.IH [OF d v] False show ?thesis by (cases xs) auto
  qed
qed

lemma shrink_nonempty:
  fixes s :: "('id, 'key) KWayPriorityQueue"
  defines "k \<equiv> length (queues s)"
  assumes inv: "kpq_inv s" and p: "p < k" and an: "index_of (mapping s) p < num_nonempty_pqs s"
    and q': "q' \<noteq> []" "distinct (map fst q')"
      "length q' = length (queues s ! index_of (mapping s) p) - 1"
  defines "s1 \<equiv> s\<lparr>queues := (queues s)[index_of (mapping s) p := q']\<rparr>"
  shows "kpq_inv (s1\<lparr>num_entries := num_entries s1 - 1\<rparr>)"
    and "entries (s1\<lparr>num_entries := num_entries s1 - 1\<rparr>) p = q'"
    and "\<And>q. q < k \<Longrightarrow> q \<noteq> p \<Longrightarrow> entries (s1\<lparr>num_entries := num_entries s1 - 1\<rparr>) q = entries s q"
    and "\<And>q. isEnabled (s1\<lparr>num_entries := num_entries s1 - 1\<rparr>) q \<longleftrightarrow> isEnabled s q"
proof -
  let ?s' = "s1\<lparr>num_entries := num_entries s1 - 1\<rparr>"
  let ?m = "mapping s" and ?n = "num_nonempty_pqs s"
  let ?a = "index_of ?m p"
  note I = kpq_invD [OF inv, folded k_def]
  note D = mapping_okD [OF I(1)]
  from an D(2) have ak: "?a < k" by simp
  from an D(5) have va: "?a \<noteq> kInvalidIndex" by simp
  from I(3) [OF an] have l1: "1 \<le> length (queues s ! ?a)" by (cases "queues s ! ?a") simp_all
  show "kpq_inv ?s'"
  proof (rule kpq_invI)
    show "mapping_ok (mapping ?s') (length (queues ?s')) (num_nonempty_pqs ?s')"
      using I(1) by (simp add: s1_def k_def)
    show "num_enabled_pqs ?s' \<le> num_nonempty_pqs ?s'" using I(2) by (simp add: s1_def)
    show "queues ?s' ! i \<noteq> []" if "i < num_nonempty_pqs ?s'" for i
      using that I(3) [of i] q'(1) ak by (cases "i = ?a") (simp_all add: s1_def k_def)
    show "queues ?s' ! i = []" if "num_nonempty_pqs ?s' \<le> i" "i < length (queues ?s')" for i
      using that I(4) [of i] an by (simp add: s1_def k_def)
    show "distinct (map fst q)" if "q \<in> set (queues ?s')" for q
    proof -
      from that have "q = q' \<or> q \<in> set (queues s)"
        using set_update_subset_insert [of "queues s" ?a q'] by (auto simp: s1_def)
      with q'(2) I(5) show ?thesis by auto
    qed
    have "length (queues s ! ?a) \<le> sum_list (map length (queues s))"
      using ak elem_le_sum_list [of ?a "map length (queues s)"] by (simp add: k_def)
    with l1 show "num_entries ?s' = sum_list (map length (queues ?s'))"
      using I(6) ak q'(3) by (simp add: s1_def k_def sum_list_length_update)
  qed
  show "entries ?s' p = q'" using an ak by (simp add: entries_def s1_def k_def)
  show "entries ?s' q = entries s q" if "q < k" "q \<noteq> p" for q
  proof -
    have "index_of ?m q \<noteq> ?a"
    proof
      assume "index_of ?m q = ?a"
      from mapping_ok_part_of_index [OF I(1) that(1) this an] D(10) [OF p va] that(2)
      show False by simp
    qed
    then show ?thesis by (simp add: entries_def s1_def)
  qed
  show "isEnabled ?s' q \<longleftrightarrow> isEnabled s q" for q
    by (simp add: isEnabled_def s1_def)
qed

lemma enabled_index:
  assumes inv: "kpq_inv s" and p: "p < length (queues s)" and en: "isEnabled s p"
  shows "index_of (mapping s) p < num_enabled_pqs s"
    "index_of (mapping s) p < num_nonempty_pqs s"
    "index_of (mapping s) p < length (queues s)"
    "index_of (mapping s) p < length (mapping s)"
    "index_of (mapping s) p \<noteq> kInvalidIndex"
    "part_at (mapping s) (index_of (mapping s) p) = p"
    "entries s p = queues s ! index_of (mapping s) p"
    "entries s p \<noteq> []"
    "p < length (mapping s)" "p \<noteq> kInvalidPart"
proof -
  note I = kpq_invD [OF inv]
  note D = mapping_okD [OF I(1)]
  from en show ae: "index_of (mapping s) p < num_enabled_pqs s" by (simp add: isEnabled_def)
  with I(2) show an: "index_of (mapping s) p < num_nonempty_pqs s" by simp
  with D(2) show "index_of (mapping s) p < length (queues s)" by simp
  with D(1) show "index_of (mapping s) p < length (mapping s)" by simp
  from an D(5) show va: "index_of (mapping s) p \<noteq> kInvalidIndex" by simp
  from D(10) [OF p va] show "part_at (mapping s) (index_of (mapping s) p) = p" .
  from an show "entries s p = queues s ! index_of (mapping s) p" by (simp add: entries_def)
  with I(3) [OF an] show "entries s p \<noteq> []" by simp
  from p D(1) show "p < length (mapping s)" by simp
  from p D(3) show "p \<noteq> kInvalidPart" by simp
qed

lemma deleteMaxFromPartition_effect:
  fixes s :: "('id, 'key::linorder) KWayPriorityQueue"
  assumes inv: "kpq_inv s" and p: "p < length (queues s)" and en: "isEnabled s p"
    and tp: "heap_top (entries s p) = Some (v, key)" and kk: "key \<noteq> kmax"
  obtains s' where "deleteMaxFromPartition kmax s p = Some ((v, key), s')" "kpq_inv s'"
    "length (queues s') = length (queues s)" "num_entries s' = num_entries s - 1"
    "entries s' p = remove1 (v, key) (entries s p)"
    "isEnabled s' p \<longleftrightarrow> entries s' p \<noteq> []"
    "\<And>q. q < length (queues s) \<Longrightarrow> q \<noteq> p \<Longrightarrow> entries s' q = entries s q"
    "\<And>q. q < length (queues s) \<Longrightarrow> q \<noteq> p \<Longrightarrow> isEnabled s' q \<longleftrightarrow> isEnabled s q"
proof -
  let ?a = "index_of (mapping s) p"
  let ?q' = "remove1 (v, key) (queues s ! ?a)"
  note E = enabled_index [OF inv p en]
  from tp E(7) have tq: "heap_top (queues s ! ?a) = Some (v, key)" by simp
  from top_in [OF tq] have mem: "(v, key) \<in> set (queues s ! ?a)" .
  have pq: "pop (queues s ! ?a) = Some ?q'" by (simp add: pop_def tq)
  have lq: "length ?q' = length (queues s ! ?a) - 1" using mem by (simp add: length_remove1)
  have dq: "distinct (map fst ?q')"
    using kpq_invD(5) [OF inv, of "queues s ! ?a"] E(3) by (simp add: distinct_map_remove1)
  define s1 where "s1 = s\<lparr>queues := (queues s)[?a := ?q']\<rparr>"
  have unf: "deleteMaxFromPartition kmax s p =
       (if queues s1 ! ?a = [] then retireEnabledPart s1 p else Some s1) \<bind>
       (\<lambda>s2. Some ((v, key), s2\<lparr>num_entries := num_entries s2 - 1\<rparr>))"
    unfolding deleteMaxFromPartition_def Let_def
    using p E(1,3,4,5,6,9,10) tq kk pq by (simp add: s1_def)
  have q1: "queues s1 ! ?a = ?q'" using E(3) by (simp add: s1_def)
  show ?thesis
  proof (cases "?q' = []")
    case False
    note S = shrink_nonempty [OF inv p E(2) False dq lq, folded s1_def]
    from unf q1 False have "deleteMaxFromPartition kmax s p =
        Some ((v, key), s1\<lparr>num_entries := num_entries s1 - 1\<rparr>)" by simp
    moreover have "isEnabled (s1\<lparr>num_entries := num_entries s1 - 1\<rparr>) p \<longleftrightarrow>
        entries (s1\<lparr>num_entries := num_entries s1 - 1\<rparr>) p \<noteq> []"
      using S(2) S(4) [of p] False en by simp
    ultimately show ?thesis
      using S E(7) by (intro that [of "s1\<lparr>num_entries := num_entries s1 - 1\<rparr>"]) (simp_all add: s1_def)
  next
    case True
    with lq kpq_invD(3) [OF inv E(2)] have len1: "length (queues s ! ?a) = 1"
      by (cases "queues s ! ?a") auto
    from True have s1e: "s1 = s\<lparr>queues := (queues s)[?a := []]\<rparr>" by (simp add: s1_def)
    obtain t where
      r: "retireEnabledPart (s\<lparr>queues := (queues s)[?a := []]\<rparr>) p = Some t" and
      tinv: "kpq_inv (t\<lparr>num_entries := num_entries t - 1\<rparr>)" and
      tlen: "length (queues t) = length (queues s)" and tnum: "num_entries t = num_entries s" and
      tent: "entries (t\<lparr>num_entries := num_entries t - 1\<rparr>) p = []" and
      ten: "\<not> isEnabled (t\<lparr>num_entries := num_entries t - 1\<rparr>) p" and
      tfr1: "\<And>q. q < length (queues s) \<Longrightarrow> q \<noteq> p \<Longrightarrow>
          entries (t\<lparr>num_entries := num_entries t - 1\<rparr>) q = entries s q" and
      tfr2: "\<And>q. q < length (queues s) \<Longrightarrow> q \<noteq> p \<Longrightarrow>
          isEnabled (t\<lparr>num_entries := num_entries t - 1\<rparr>) q \<longleftrightarrow> isEnabled s q"
      by (rule retireEnabledPart_effect [OF inv p en len1], rule that) assumption+
    from unf q1 True r s1e have "deleteMaxFromPartition kmax s p =
        Some ((v, key), t\<lparr>num_entries := num_entries t - 1\<rparr>)" by simp
    then show ?thesis
      using tinv tlen tnum tent ten tfr1 tfr2 True E(7)
      by (intro that [of "t\<lparr>num_entries := num_entries t - 1\<rparr>"]) simp_all
  qed
qed

lemma remove_pq_effect:
  fixes s :: "('id, 'key) KWayPriorityQueue"
  assumes inv: "kpq_inv s" and p: "p < length (queues s)"
    and c: "heap_contains (entries s p) v"
  obtains s' where "remove_pq s v p = Some s'" "kpq_inv s'"
    "length (queues s') = length (queues s)" "num_entries s' = num_entries s - 1"
    "entries s' p = filter (\<lambda>e. fst e \<noteq> v) (entries s p)"
    "isEnabled s' p \<longleftrightarrow> isEnabled s p \<and> entries s' p \<noteq> []"
    "\<And>q. q < length (queues s) \<Longrightarrow> q \<noteq> p \<Longrightarrow> entries s' q = entries s q"
    "\<And>q. q < length (queues s) \<Longrightarrow> q \<noteq> p \<Longrightarrow> isEnabled s' q \<longleftrightarrow> isEnabled s q"
proof -
  let ?a = "index_of (mapping s) p"
  let ?q' = "filter (\<lambda>e. fst e \<noteq> v) (queues s ! ?a)"
  note I = kpq_invD [OF inv]
  note D = mapping_okD [OF I(1)]
  from c have an: "?a < num_nonempty_pqs s"
    by (auto simp: entries_def heap_contains_def split: if_splits)
  then have ent: "entries s p = queues s ! ?a" by (simp add: entries_def)
  from an D(2) have ak: "?a < length (queues s)" by simp
  from c ent have hc: "heap_contains (queues s ! ?a) v" by simp
  have dq0: "distinct (map fst (queues s ! ?a))" using I(5) [of "queues s ! ?a"] ak by simp
  have lq: "length ?q' = length (queues s ! ?a) - 1"
    using hc dq0 by (intro length_filter_fst) (simp_all add: heap_contains_def)
  have dq: "distinct (map fst ?q')" using dq0 by (simp add: distinct_map_filter)
  define s1 where "s1 = s\<lparr>queues := (queues s)[?a := ?q']\<rparr>"
  have unf: "remove_pq s v p =
       (if queues s1 ! ?a = [] then retirePart s1 p else Some s1) \<bind>
       (\<lambda>s5. Some (s5\<lparr>num_entries := num_entries s5 - 1\<rparr>))"
    unfolding remove_pq_def Let_def
    using p D(1) an ak hc by (simp add: s1_def heap_remove_def)
  have q1: "queues s1 ! ?a = ?q'" using ak by (simp add: s1_def)
  show ?thesis
  proof (cases "?q' = []")
    case False
    note S = shrink_nonempty [OF inv p an False dq lq, folded s1_def]
    from unf q1 False have "remove_pq s v p = Some (s1\<lparr>num_entries := num_entries s1 - 1\<rparr>)"
      by simp
    moreover have "isEnabled (s1\<lparr>num_entries := num_entries s1 - 1\<rparr>) p \<longleftrightarrow>
        isEnabled s p \<and> entries (s1\<lparr>num_entries := num_entries s1 - 1\<rparr>) p \<noteq> []"
      using S(2) S(4) [of p] False by simp
    ultimately show ?thesis
      using S ent by (intro that [of "s1\<lparr>num_entries := num_entries s1 - 1\<rparr>"]) (simp_all add: s1_def)
  next
    case True
    with lq I(3) [OF an] have len1: "length (queues s ! ?a) = 1"
      by (cases "queues s ! ?a") auto
    from True have s1e: "s1 = s\<lparr>queues := (queues s)[?a := []]\<rparr>" by (simp add: s1_def)
    obtain t where
      r: "retirePart (s\<lparr>queues := (queues s)[?a := []]\<rparr>) p = Some t" and
      tinv: "kpq_inv (t\<lparr>num_entries := num_entries t - 1\<rparr>)" and
      tlen: "length (queues t) = length (queues s)" and tnum: "num_entries t = num_entries s" and
      tent: "entries (t\<lparr>num_entries := num_entries t - 1\<rparr>) p = []" and
      ten: "\<not> isEnabled (t\<lparr>num_entries := num_entries t - 1\<rparr>) p" and
      tfr1: "\<And>q. q < length (queues s) \<Longrightarrow> q \<noteq> p \<Longrightarrow>
          entries (t\<lparr>num_entries := num_entries t - 1\<rparr>) q = entries s q" and
      tfr2: "\<And>q. q < length (queues s) \<Longrightarrow> q \<noteq> p \<Longrightarrow>
          isEnabled (t\<lparr>num_entries := num_entries t - 1\<rparr>) q \<longleftrightarrow> isEnabled s q"
      by (rule retirePart_effect [OF inv p an len1], rule that) assumption+
    from unf q1 True r s1e have "remove_pq s v p = Some (t\<lparr>num_entries := num_entries t - 1\<rparr>)"
      by simp
    then show ?thesis
      using tinv tlen tnum tent ten tfr1 tfr2 True ent
      by (intro that [of "t\<lparr>num_entries := num_entries t - 1\<rparr>"]) simp_all
  qed
qed

lemma updateKey_effect:
  fixes s :: "('id, 'key) KWayPriorityQueue"
  assumes inv: "kpq_inv s" and p: "p < length (queues s)"
    and c: "heap_contains (entries s p) v"
  obtains s' where "updateKey s v p key = Some s'" "kpq_inv s'"
    "length (queues s') = length (queues s)" "num_entries s' = num_entries s"
    "entries s' p = map (\<lambda>e. if fst e = v then (v, key) else e) (entries s p)"
    "\<And>q. q < length (queues s) \<Longrightarrow> q \<noteq> p \<Longrightarrow> entries s' q = entries s q"
    "\<And>q. isEnabled s' q \<longleftrightarrow> isEnabled s q"
proof -
  let ?a = "index_of (mapping s) p"
  let ?q' = "map (\<lambda>e. if fst e = v then (v, key) else e) (queues s ! ?a)"
  note I = kpq_invD [OF inv]
  note D = mapping_okD [OF I(1)]
  from c have an: "?a < num_nonempty_pqs s"
    by (auto simp: entries_def heap_contains_def split: if_splits)
  then have ent: "entries s p = queues s ! ?a" by (simp add: entries_def)
  from an D(2) have ak: "?a < length (queues s)" by simp
  from an D(5) have va: "?a \<noteq> kInvalidIndex" by simp
  from c ent have hc: "heap_contains (queues s ! ?a) v" by simp
  have "map fst (map (\<lambda>e. if fst e = v then (v, key) else e) h) = map fst h" for h :: "('id \<times> 'key) list"
    by (induction h) auto
  then have fq: "map fst ?q' = map fst (queues s ! ?a)" .
  have dq0: "distinct (map fst (queues s ! ?a))" using I(5) [of "queues s ! ?a"] ak by simp
  then have dq: "distinct (map fst ?q')" by (simp only: fq)
  define s' where "s' = s\<lparr>queues := (queues s)[?a := ?q']\<rparr>"
  have res: "updateKey s v p key = Some s'"
    unfolding updateKey_def using p D(1) an ak hc by (simp add: heap_updateKey_def s'_def)
  have inv': "kpq_inv s'"
  proof (rule kpq_invI)
    show "mapping_ok (mapping s') (length (queues s')) (num_nonempty_pqs s')"
      using I(1) by (simp add: s'_def)
    show "num_enabled_pqs s' \<le> num_nonempty_pqs s'" using I(2) by (simp add: s'_def)
    show "queues s' ! i \<noteq> []" if "i < num_nonempty_pqs s'" for i
      using that I(3) [of i] I(3) [OF an] ak by (cases "i = ?a") (simp_all add: s'_def)
    show "queues s' ! i = []" if "num_nonempty_pqs s' \<le> i" "i < length (queues s')" for i
      using that I(4) [of i] an by (simp add: s'_def)
    show "distinct (map fst q)" if "q \<in> set (queues s')" for q
    proof -
      from that have "q = ?q' \<or> q \<in> set (queues s)"
        using set_update_subset_insert [of "queues s" ?a ?q'] by (auto simp: s'_def)
      then show ?thesis
      proof
        assume "q = ?q'"
        with dq show ?thesis by (simp only:)
      next
        assume "q \<in> set (queues s)"
        with I(5) show ?thesis by simp
      qed
    qed
    show "num_entries s' = sum_list (map length (queues s'))"
      using I(6) ak elem_le_sum_list [of ?a "map length (queues s)"]
      by (simp add: s'_def sum_list_length_update)
  qed
  have e1: "entries s' p = map (\<lambda>e. if fst e = v then (v, key) else e) (entries s p)"
    using an ak by (simp add: entries_def s'_def)
  have e2: "entries s' q = entries s q" if "q < length (queues s)" "q \<noteq> p" for q
  proof -
    have "index_of (mapping s) q \<noteq> ?a"
    proof
      assume "index_of (mapping s) q = ?a"
      from mapping_ok_part_of_index [OF I(1) that(1) this an] D(10) [OF p va] that(2)
      show False by simp
    qed
    then show ?thesis by (simp add: entries_def s'_def)
  qed
  have e3: "isEnabled s' q \<longleftrightarrow> isEnabled s q" for q by (simp add: isEnabled_def s'_def)
  show ?thesis
    by (rule that [of s']) (use res inv' e1 e2 e3 in \<open>simp_all add: s'_def\<close>)
qed

lemma deleteMax_select:
  "deleteMax rtb rnd kmin kmax s0 =
     (if rtb then maxIndexRandomTieBreaking rnd kmin s0
      else map_option (\<lambda>i. (i, s0)) (maxIndex kmin s0)) \<bind> (\<lambda>(i, s). deleteMaxAt kmax i s)"
  unfolding deleteMax_def deleteMaxAt_def by (rule refl)

lemma ties_update [simp]:
  "kpq_inv (s\<lparr>ties := t\<rparr>) = kpq_inv s" "entries (s\<lparr>ties := t\<rparr>) p = entries s p"
  "isEnabled (s\<lparr>ties := t\<rparr>) p = isEnabled s p" "isUnused (s\<lparr>ties := t\<rparr>) p = isUnused s p"
  "size_part (s\<lparr>ties := t\<rparr>) p = size_part s p"
  by (simp_all add: kpq_inv_def entries_def isEnabled_def isUnused_def size_part_def)

lemma maxIndex_loop_spec:
  assumes "\<forall>i\<in>set is. i < length qs \<and> (\<exists>v. heap_top (qs ! i) = Some (v, K i))"
  shows "\<exists>r. maxIndex_loop qs is mi mk = Some r \<and>
           (if \<exists>i\<in>set is. mk < K i
            then r \<in> set is \<and> mk < K r \<and> (\<forall>i\<in>set is. K i \<le> K r)
            else r = mi)"
  using assms
proof (induction "is" arbitrary: mi mk)
  case Nil
  then show ?case by simp
next
  case (Cons i "is")
  from Cons.prems obtain v where i: "i < length qs" "heap_top (qs ! i) = Some (v, K i)" by auto
  from Cons.prems have rest: "\<forall>i\<in>set is. i < length qs \<and> (\<exists>v. heap_top (qs ! i) = Some (v, K i))"
    by simp
  show ?case
  proof (cases "mk < K i")
    case True
    from Cons.IH [OF rest, of i "K i"] obtain r where
      r: "maxIndex_loop qs is i (K i) = Some r"
        "if \<exists>j\<in>set is. K i < K j
         then r \<in> set is \<and> K i < K r \<and> (\<forall>j\<in>set is. K j \<le> K r) else r = i"
      by blast
    have "maxIndex_loop qs (i # is) mi mk = Some r" using i True r(1) by simp
    moreover have "r \<in> set (i # is) \<and> mk < K r \<and> (\<forall>j\<in>set (i # is). K j \<le> K r)"
    proof (cases "\<exists>j\<in>set is. K i < K j")
      case True
      with r(2) have "r \<in> set is" "K i < K r" "\<forall>j\<in>set is. K j \<le> K r" by simp_all
      with \<open>mk < K i\<close> show ?thesis by auto
    next
      case False
      with r(2) have "r = i" by simp
      with False \<open>mk < K i\<close> show ?thesis by (auto simp: not_less)
    qed
    ultimately show ?thesis using True by auto
  next
    case False
    from Cons.IH [OF rest, of mi mk] obtain r where
      r: "maxIndex_loop qs is mi mk = Some r"
        "if \<exists>j\<in>set is. mk < K j
         then r \<in> set is \<and> mk < K r \<and> (\<forall>j\<in>set is. K j \<le> K r) else r = mi"
      by blast
    have res: "maxIndex_loop qs (i # is) mi mk = Some r" using i False r(1) by simp
    show ?thesis
    proof (cases "\<exists>j\<in>set is. mk < K j")
      case True
      with r(2) have "r \<in> set is" "mk < K r" "\<forall>j\<in>set is. K j \<le> K r" by simp_all
      with False res True show ?thesis by (auto simp: not_less)
    next
      case F: False
      with r(2) have "r = mi" by simp
      with False F res show ?thesis by auto
    qed
  qed
qed

lemma maxIndex_spec:
  fixes s :: "('id, 'key::linorder) KWayPriorityQueue"
  assumes inv: "kpq_inv s"
    and ex: "\<exists>i<num_enabled_pqs s. \<exists>v key. heap_top (queues s ! i) = Some (v, key) \<and> kmin < key"
  obtains i v key where "maxIndex kmin s = Some i" "i < num_enabled_pqs s"
    "heap_top (queues s ! i) = Some (v, key)" "kmin < key"
    "\<And>j x. j < num_enabled_pqs s \<Longrightarrow> x \<in> set (queues s ! j) \<Longrightarrow> snd x \<le> key"
proof -
  let ?e = "num_enabled_pqs s"
  note I = kpq_invD [OF inv]
  note D = mapping_okD [OF I(1)]
  define K where "K i = snd (the (heap_top (queues s ! i)))" for i
  have tops: "i < length (queues s) \<and> (\<exists>v. heap_top (queues s ! i) = Some (v, K i))" if "i < ?e" for i
  proof -
    from that I(2) have n: "i < num_nonempty_pqs s" by simp
    from top_Some [OF I(3) [OF n]] obtain v key where "heap_top (queues s ! i) = Some (v, key)" by blast
    with n D(2) show ?thesis by (auto simp: K_def)
  qed
  then have pre: "\<forall>i\<in>set [0..<?e]. i < length (queues s) \<and> (\<exists>v. heap_top (queues s ! i) = Some (v, K i))"
    by simp
  from ex obtain i0 v0 key0 where "i0 < ?e" "heap_top (queues s ! i0) = Some (v0, key0)" "kmin < key0"
    by blast
  then have "i0 \<in> set [0..<?e]" "kmin < K i0" by (simp_all add: K_def)
  then have ex': "\<exists>i\<in>set [0..<?e]. kmin < K i" by blast
  from maxIndex_loop_spec [OF pre, of kInvalidIndex kmin] obtain r where
    r1: "maxIndex_loop (queues s) [0..<?e] kInvalidIndex kmin = Some r" and
    r2: "if \<exists>i\<in>set [0..<?e]. kmin < K i
         then r \<in> set [0..<?e] \<and> kmin < K r \<and> (\<forall>i\<in>set [0..<?e]. K i \<le> K r)
         else r = kInvalidIndex"
    by blast
  from r2 ex' have "r \<in> set [0..<?e] \<and> kmin < K r \<and> (\<forall>i\<in>set [0..<?e]. K i \<le> K r)"
    by (simp del: set_upt)
  with r1 have r: "maxIndex_loop (queues s) [0..<?e] kInvalidIndex kmin = Some r"
      "r \<in> set [0..<?e]" "kmin < K r" "\<forall>i\<in>set [0..<?e]. K i \<le> K r"
    by blast+
  from r(2) have re: "r < ?e" by simp
  with I(2) D(5) have "r \<noteq> kInvalidIndex" by simp
  with r(1) have mi: "maxIndex kmin s = Some r" by (simp add: maxIndex_def)
  from tops [OF re] obtain v where tr: "heap_top (queues s ! r) = Some (v, K r)" by blast
  have ge: "snd x \<le> K r" if "j < ?e" "x \<in> set (queues s ! j)" for j x
  proof -
    from tops [OF that(1)] obtain w where "heap_top (queues s ! j) = Some (w, K j)" by blast
    from top_ge [OF this that(2)] have "snd x \<le> K j" by simp
    also from r(4) that(1) have "K j \<le> K r" by simp
    finally show ?thesis .
  qed
  show ?thesis by (rule that [OF mi re tr r(3) ge])
qed

lemma deleteMax_effect:
  fixes s :: "('id, 'key::linorder) KWayPriorityQueue"
  assumes inv: "kpq_inv s"
    and ex: "\<exists>p<length (queues s). isEnabled s p \<and>
              (\<exists>v key. heap_top (entries s p) = Some (v, key) \<and> kmin < key)"
    and nomax: "\<And>p x. p < length (queues s) \<Longrightarrow> isEnabled s p \<Longrightarrow> x \<in> set (entries s p)
              \<Longrightarrow> snd x \<noteq> kmax"
  obtains v key p s' where "deleteMax False rnd kmin kmax s = Some ((v, key, p), s')"
    "p < length (queues s)" "isEnabled s p" "heap_top (entries s p) = Some (v, key)"
    "\<And>q x. q < length (queues s) \<Longrightarrow> isEnabled s q \<Longrightarrow> x \<in> set (entries s q) \<Longrightarrow> snd x \<le> key"
    "kpq_inv s'" "length (queues s') = length (queues s)" "num_entries s' = num_entries s - 1"
    "entries s' p = remove1 (v, key) (entries s p)"
    "isEnabled s' p \<longleftrightarrow> entries s' p \<noteq> []"
    "\<And>q. q < length (queues s) \<Longrightarrow> q \<noteq> p \<Longrightarrow> entries s' q = entries s q"
    "\<And>q. q < length (queues s) \<Longrightarrow> q \<noteq> p \<Longrightarrow> isEnabled s' q \<longleftrightarrow> isEnabled s q"
proof -
  let ?e = "num_enabled_pqs s" and ?m = "mapping s"
  note I = kpq_invD [OF inv]
  note D = mapping_okD [OF I(1)]
  from ex obtain p0 v0 key0 where p0: "p0 < length (queues s)" "isEnabled s p0"
    "heap_top (entries s p0) = Some (v0, key0)" "kmin < key0" by blast
  note E0 = enabled_index [OF inv p0(1,2)]
  from E0(1) p0(3,4) E0(7)
  have "\<exists>i<?e. \<exists>v key. heap_top (queues s ! i) = Some (v, key) \<and> kmin < key" by auto
  then obtain i v key where
    mi: "maxIndex kmin s = Some i" and ie: "i < ?e" and
    ti: "heap_top (queues s ! i) = Some (v, key)" and
    ge: "\<And>j x. j < ?e \<Longrightarrow> x \<in> set (queues s ! j) \<Longrightarrow> snd x \<le> key"
    by (rule maxIndex_spec [OF inv], rule_tac that) assumption+
  define p where "p = part_at ?m i"
  from ie I(2) have "i < num_nonempty_pqs s" by simp
  from D(6,7) [OF this] have p: "p < length (queues s)" and ip: "index_of ?m p = i"
    by (simp_all add: p_def)
  from ip ie have en: "isEnabled s p" by (simp add: isEnabled_def)
  note E = enabled_index [OF inv p en]
  from ti ip E(7) have tp: "heap_top (entries s p) = Some (v, key)" by simp
  from nomax [OF p en top_in [OF tp]] have kk: "key \<noteq> kmax" by simp
  have ge': "snd x \<le> key" if "q < length (queues s)" "isEnabled s q" "x \<in> set (entries s q)" for q x
    using ge [of "index_of ?m q" x] enabled_index(1,7) [OF inv that(1,2)] that(3) by simp
  let ?a = "index_of ?m p"
  define s1 where "s1 = s\<lparr>queues := (queues s)[?a := remove1 (v, key) (queues s ! ?a)]\<rparr>"
  define X where "X = (if queues s1 ! ?a = [] then retireEnabledPart s1 p else Some s1)"
  from ti ip have tq: "heap_top (queues s ! ?a) = Some (v, key)" by simp
  then have pq: "pop (queues s ! ?a) = Some (remove1 (v, key) (queues s ! ?a))"
    by (simp add: pop_def)
  have unfP: "deleteMaxFromPartition kmax s p =
       X \<bind> (\<lambda>s2. Some ((v, key), s2\<lparr>num_entries := num_entries s2 - 1\<rparr>))"
    unfolding deleteMaxFromPartition_def Let_def X_def
    using p E(1,3,4,5,6,9,10) tq kk pq by (simp add: s1_def)
  have unfM: "deleteMaxAt kmax i s =
       X \<bind> (\<lambda>s2. Some ((v, key, p), s2\<lparr>num_entries := num_entries s2 - 1\<rparr>))"
    unfolding deleteMaxAt_def Let_def X_def p_def [symmetric]
    using ie p E(1,3,4,5,6,9,10) tq kk pq ip [symmetric] by (simp add: s1_def)
  obtain s' where
    r: "deleteMaxFromPartition kmax s p = Some ((v, key), s')" and
    R: "kpq_inv s'" "length (queues s') = length (queues s)" "num_entries s' = num_entries s - 1"
      "entries s' p = remove1 (v, key) (entries s p)"
      "isEnabled s' p \<longleftrightarrow> entries s' p \<noteq> []"
      "\<And>q. q < length (queues s) \<Longrightarrow> q \<noteq> p \<Longrightarrow> entries s' q = entries s q"
      "\<And>q. q < length (queues s) \<Longrightarrow> q \<noteq> p \<Longrightarrow> isEnabled s' q \<longleftrightarrow> isEnabled s q"
    by (rule deleteMaxFromPartition_effect [OF inv p en tp kk], rule that) assumption+
  from r unfP obtain s2 where "X = Some s2" "s' = s2\<lparr>num_entries := num_entries s2 - 1\<rparr>"
    by (cases X) auto
  with unfM mi have "deleteMax False rnd kmin kmax s = Some ((v, key, p), s')"
    by (simp add: deleteMax_select)
  from that [OF this p en tp ge' R] show ?thesis .
qed

subsection \<open>Runs\<close>

lemma kpq_inv_initialize:
  assumes "k < kInvalidPart"
  shows "kpq_inv (initialize k :: ('id, 'key) KWayPriorityQueue)"
proof -
  let ?m = "replicate (k + 1) \<lparr>part = kInvalidPart, index = kInvalidIndex\<rparr>"
  have pa: "part_at ?m i = kInvalidPart" if "i \<le> k" for i
    using that nth_replicate [of i "k + 1" "\<lparr>part = kInvalidPart, index = kInvalidIndex\<rparr>"]
    by (simp add: part_at_def del: replicate.simps)
  have ia: "index_of ?m p = kInvalidIndex" if "p < k" for p
    using that nth_replicate [of p "k + 1" "\<lparr>part = kInvalidPart, index = kInvalidIndex\<rparr>"]
    by (simp add: index_of_def del: replicate.simps)
  have "mapping_ok ?m k 0"
    unfolding mapping_ok_def using assms pa ia by (simp del: replicate.simps)
  then show ?thesis
    by (intro kpq_invI) (simp_all add: initialize_def)
qed

lemma kpq_inv_enabled_nonempty:
  assumes "kpq_inv s" "p < length (queues s)" "isEnabled s p"
  shows "0 < size_part s p"
  using enabled_index(2,7,8) [OF assms] by (simp add: size_part_def)

lemma size_part_entries: "size_part s p = length (entries s p)"
  by (simp add: size_part_def entries_def)

lemma kpq_inv_unused_not_enabled:
  assumes "kpq_inv s" "p < length (queues s)" "isUnused s p"
  shows "\<not> isEnabled s p"
  using enabled_index(5) [OF assms(1,2)] assms(3) by (auto simp: isUnused_def)

lemma enablePart_Some:
  assumes "enablePart s p = Some s'" shows "p < length (queues s)"
  using assms by (auto simp: enablePart_def split: if_splits)

lemma disablePart_Some:
  assumes "disablePart s p = Some s'" shows "p < length (queues s)"
  using assms by (auto simp: disablePart_def split: if_splits)

lemma apply_toggle_effect:
  assumes inv: "kpq_inv s" and r: "apply_toggle t s = Some s'"
  shows "kpq_inv s'" "length (queues s') = length (queues s)" "num_entries s' = num_entries s"
    "\<And>q. q < length (queues s) \<Longrightarrow> entries s' q = entries s q"
proof -
  have "kpq_inv s' \<and> length (queues s') = length (queues s) \<and> num_entries s' = num_entries s \<and>
      (\<forall>q. q < length (queues s) \<longrightarrow> entries s' q = entries s q)"
  proof (cases t)
    case (Enable p)
    with r have r': "enablePart s p = Some s'" by simp
    from enablePart_Some [OF r'] have p: "p < length (queues s)" .
    show ?thesis
      by (rule enablePart_effect [OF inv p]) (use r' in auto)
  next
    case (Disable p)
    with r have r': "disablePart s p = Some s'" by simp
    from disablePart_Some [OF r'] have p: "p < length (queues s)" .
    show ?thesis
      by (rule disablePart_effect [OF inv p]) (use r' in auto)
  qed
  then show "kpq_inv s'" "length (queues s') = length (queues s)" "num_entries s' = num_entries s"
    "\<And>q. q < length (queues s) \<Longrightarrow> entries s' q = entries s q"
    by blast+
qed

lemma apply_toggle_total:
  assumes inv: "kpq_inv s" and p: "toggle_part t < length (queues s)"
  shows "\<exists>s'. apply_toggle t s = Some s'"
proof (cases t)
  case (Enable q)
  with p have "q < length (queues s)" by simp
  from enablePart_effect [OF inv this] Enable show ?thesis by (metis apply_toggle.simps(1))
next
  case (Disable q)
  with p have "q < length (queues s)" by simp
  from disablePart_effect [OF inv this] Disable show ?thesis by (metis apply_toggle.simps(2))
qed

lemma apply_toggles_effect:
  assumes "kpq_inv s" "\<forall>t\<in>set ts. toggle_part t < length (queues s)"
  shows "\<exists>s'. apply_toggles ts s = Some s' \<and> kpq_inv s' \<and> length (queues s') = length (queues s) \<and>
           num_entries s' = num_entries s \<and>
           (\<forall>q. q < length (queues s) \<longrightarrow> entries s' q = entries s q)"
  using assms
proof (induction ts arbitrary: s)
  case Nil
  then show ?case by simp
next
  case (Cons t ts)
  from Cons.prems have tp: "toggle_part t < length (queues s)" by simp
  from apply_toggle_total [OF Cons.prems(1) tp] obtain s1 where s1: "apply_toggle t s = Some s1"
    by blast
  note E = apply_toggle_effect [OF Cons.prems(1) s1]
  from Cons.prems(2) E(2) have "\<forall>t\<in>set ts. toggle_part t < length (queues s1)" by simp
  from Cons.IH [OF E(1) this] obtain s' where
    "apply_toggles ts s1 = Some s'" "kpq_inv s'" "length (queues s') = length (queues s1)"
    "num_entries s' = num_entries s1" "\<forall>q. q < length (queues s1) \<longrightarrow> entries s' q = entries s1 q"
    by blast
  with s1 E show ?case by simp
qed

subsection \<open>What a successful operation implies, and what every operation preserves\<close>

lemma insert_pq_SomeD:
  assumes inv: "kpq_inv s" and r: "insert_pq s v p key = Some s'"
  shows "p < length (queues s)" "\<not> heap_contains (entries s p) v"
proof -
  note I = kpq_invD [OF inv]
  note D = mapping_okD [OF I(1)]
  show p: "p < length (queues s)"
  proof (rule ccontr)
    assume "\<not> p < length (queues s)"
    then have "insert_pq s v p key = None" by (simp add: insert_pq_def)
    with r show False by simp
  qed
  show "\<not> heap_contains (entries s p) v"
  proof
    assume c: "heap_contains (entries s p) v"
    then have n: "index_of (mapping s) p < num_nonempty_pqs s"
      by (cases "index_of (mapping s) p < num_nonempty_pqs s") (simp_all add: entries_def heap_contains_def)
    with c have c': "heap_contains (queues s ! index_of (mapping s) p) v" by (simp add: entries_def)
    from n D(5) have u: "index_of (mapping s) p \<noteq> kInvalidIndex" by simp
    from p D(1) have pm: "p < length (mapping s)" by simp
    from c' u pm have "insert_pq s v p key = None"
      by (simp add: insert_pq_def Let_def push_def)
    with r show False by simp
  qed
qed

lemma remove_pq_SomeD:
  assumes r: "remove_pq s v p = Some s'"
  shows "p < length (queues s)" "heap_contains (entries s p) v"
proof -
  have a: "p < length (queues s) \<and> index_of (mapping s) p < num_nonempty_pqs s"
  proof (rule ccontr)
    assume "\<not> (p < length (queues s) \<and> index_of (mapping s) p < num_nonempty_pqs s)"
    then have "remove_pq s v p = None"
      by (auto simp: remove_pq_def)
    with r show False by simp
  qed
  then show "p < length (queues s)" by simp
  show "heap_contains (entries s p) v"
  proof (rule ccontr)
    assume "\<not> heap_contains (entries s p) v"
    with a have "heap_remove (queues s ! index_of (mapping s) p) v = None"
      by (simp add: entries_def heap_remove_def)
    then have "remove_pq s v p = None" by (simp add: remove_pq_def)
    with r show False by simp
  qed
qed

lemma updateKey_SomeD:
  assumes r: "updateKey s v p key = Some s'"
  shows "p < length (queues s)" "heap_contains (entries s p) v"
proof -
  have a: "p < length (queues s) \<and> index_of (mapping s) p < num_nonempty_pqs s"
  proof (rule ccontr)
    assume "\<not> (p < length (queues s) \<and> index_of (mapping s) p < num_nonempty_pqs s)"
    then have "updateKey s v p key = None"
      by (auto simp: updateKey_def)
    with r show False by simp
  qed
  then show "p < length (queues s)" by simp
  show "heap_contains (entries s p) v"
  proof (rule ccontr)
    assume "\<not> heap_contains (entries s p) v"
    with a have "heap_updateKey (queues s ! index_of (mapping s) p) v key = None"
      by (simp add: entries_def heap_updateKey_def)
    then have "updateKey s v p key = None" by (simp add: updateKey_def)
    with r show False by simp
  qed
qed

lemma deleteMaxFromPartition_SomeD:
  fixes s :: "('id, 'key::linorder) KWayPriorityQueue"
  assumes inv: "kpq_inv s" and r: "deleteMaxFromPartition kmax s p = Some ((v, key), s')"
  shows "p < length (queues s)" "isEnabled s p" "heap_top (entries s p) = Some (v, key)" "key \<noteq> kmax"
proof -
  note I = kpq_invD [OF inv]
  let ?a = "index_of (mapping s) p"
  have a: "p < length (queues s) \<and> ?a < num_enabled_pqs s"
  proof (rule ccontr)
    assume "\<not> (p < length (queues s) \<and> ?a < num_enabled_pqs s)"
    then have "deleteMaxFromPartition kmax s p = None"
      by (auto simp: deleteMaxFromPartition_def Let_def)
    with r show False by simp
  qed
  then show p: "p < length (queues s)" and en: "isEnabled s p" by (simp_all add: isEnabled_def)
  note E = enabled_index [OF inv p en]
  obtain w k where t: "heap_top (queues s ! ?a) = Some (w, k)"
    using top_Some [OF I(3) [OF E(2)]] by blast
  have "w = v \<and> k = key \<and> k \<noteq> kmax"
  proof (cases "k = kmax")
    case True
    with t have "deleteMaxFromPartition kmax s p = None"
      by (simp add: deleteMaxFromPartition_def Let_def)
    with r show ?thesis by simp
  next
    case False
    with r t p E(1,3,4,5,6,9,10) show ?thesis
      by (auto simp: deleteMaxFromPartition_def Let_def pop_def split: if_splits bind_splits)
  qed
  then have eq: "w = v" "k = key" and kk: "k \<noteq> kmax" by blast+
  from t E(7) show "heap_top (entries s p) = Some (v, key)" by (simp add: eq)
  from kk show "key \<noteq> kmax" by (simp add: eq)
qed

lemma deleteMaxAt_SomeD:
  fixes s :: "('id, 'key::linorder) KWayPriorityQueue"
  assumes inv: "kpq_inv s" and r: "deleteMaxAt kmax i s = Some ((v, key, p), s')"
  shows "deleteMaxFromPartition kmax s p = Some ((v, key), s')"
proof -
  let ?e = "num_enabled_pqs s" and ?m = "mapping s"
  note I = kpq_invD [OF inv]
  note D = mapping_okD [OF I(1)]
  have ie: "i < ?e"
  proof (rule ccontr)
    assume "\<not> i < ?e"
    then have "deleteMaxAt kmax i s = None" by (simp add: deleteMaxAt_def)
    with r show False by simp
  qed
  with I(2) have n: "i < num_nonempty_pqs s" by simp
  define p' where "p' = part_at ?m i"
  from D(6,7) [OF n] have p': "p' < length (queues s)" and ip: "index_of ?m p' = i"
    by (simp_all add: p'_def)
  from ip ie have en: "isEnabled s p'" by (simp add: isEnabled_def)
  note E = enabled_index [OF inv p' en]
  obtain w k where t: "heap_top (queues s ! i) = Some (w, k)"
    using top_Some [OF I(3) [OF n]] by blast
  have kk: "k \<noteq> kmax"
  proof
    assume "k = kmax"
    with ie t have "deleteMaxAt kmax i s = None" by (simp add: deleteMaxAt_def Let_def)
    with r show False by simp
  qed
  let ?a = "index_of ?m p'"
  define s1 where "s1 = s\<lparr>queues := (queues s)[?a := remove1 (w, k) (queues s ! ?a)]\<rparr>"
  define X where "X = (if queues s1 ! ?a = [] then retireEnabledPart s1 p' else Some s1)"
  from t ip have tq: "heap_top (queues s ! ?a) = Some (w, k)" by simp
  then have pq: "pop (queues s ! ?a) = Some (remove1 (w, k) (queues s ! ?a))"
    by (simp add: pop_def)
  have unfP: "deleteMaxFromPartition kmax s p' =
       X \<bind> (\<lambda>s2. Some ((w, k), s2\<lparr>num_entries := num_entries s2 - 1\<rparr>))"
    unfolding deleteMaxFromPartition_def Let_def X_def
    using p' E(1,3,4,5,6,9,10) tq kk pq by (simp add: s1_def)
  have unfM: "deleteMaxAt kmax i s =
       X \<bind> (\<lambda>s2. Some ((w, k, p'), s2\<lparr>num_entries := num_entries s2 - 1\<rparr>))"
    unfolding deleteMaxAt_def Let_def X_def p'_def [symmetric]
    using ie p' E(1,3,4,5,6,9,10) tq kk pq ip [symmetric] by (simp add: s1_def)
  from r unfM obtain s2 where x: "X = Some s2" and eq: "w = v" "k = key" "p' = p"
      "s' = s2\<lparr>num_entries := num_entries s2 - 1\<rparr>"
    by (cases X) auto
  from unfP x eq show "deleteMaxFromPartition kmax s p = Some ((v, key), s')" by simp
qed

lemma deleteMax_SomeD:
  fixes s :: "('id, 'key::linorder) KWayPriorityQueue"
  assumes inv: "kpq_inv s" and r: "deleteMax rtb rnd kmin kmax s = Some ((v, key, p), s')"
  shows "\<exists>t. deleteMaxFromPartition kmax (s\<lparr>ties := t\<rparr>) p = Some ((v, key), s')"
proof -
  from r obtain i s0 where
    sel: "(if rtb then maxIndexRandomTieBreaking rnd kmin s
           else map_option (\<lambda>i. (i, s)) (maxIndex kmin s)) = Some (i, s0)"
    and at: "deleteMaxAt kmax i s0 = Some ((v, key, p), s')"
    unfolding deleteMax_select by (auto simp: bind_eq_Some_conv)
  from sel have "\<exists>t. s0 = s\<lparr>ties := t\<rparr>"
  proof (cases rtb)
    case True
    with sel show ?thesis
      by (auto simp: maxIndexRandomTieBreaking_def split: option.splits if_splits)
  next
    case False
    with sel have "s0 = s" by auto
    then have "s0 = s\<lparr>ties := ties s\<rparr>" by simp
    then show ?thesis ..
  qed
  then obtain t where s0: "s0 = s\<lparr>ties := t\<rparr>" ..
  from inv have "kpq_inv s0" by (simp add: s0)
  from deleteMaxAt_SomeD [OF this at] s0 show ?thesis by blast
qed

lemma apply_op_effect:
  fixes s :: "('id, 'key::linorder) KWayPriorityQueue"
  assumes inv: "kpq_inv s" and r: "apply_op rtb kmin kmax op s = Some s'"
  obtains p where "p < length (queues s)" "kpq_inv s'" "length (queues s') = length (queues s)"
    "\<And>q. q < length (queues s) \<Longrightarrow> q \<noteq> p \<Longrightarrow> entries s' q = entries s q"
    "\<And>q. q < length (queues s) \<Longrightarrow> q \<noteq> p \<Longrightarrow> isEnabled s' q \<longleftrightarrow> isEnabled s q"
proof (cases op)
  case (Insert v p key)
  with r have r': "insert_pq s v p key = Some s'" by simp
  note P = insert_pq_SomeD [OF inv r']
  obtain t where t: "insert_pq s v p key = Some t" and T: "kpq_inv t"
    "length (queues t) = length (queues s)"
    "\<And>q. q < length (queues s) \<Longrightarrow> q \<noteq> p \<Longrightarrow> entries t q = entries s q"
    "\<And>q. q < length (queues s) \<Longrightarrow> isEnabled t q \<longleftrightarrow> isEnabled s q"
    by (rule insert_pq_effect [OF inv P, of key], rule that) assumption+
  from t r' have "t = s'" by simp
  with T show ?thesis by (intro that [of p] P(1)) simp_all
next
  case (DeleteMax rnd)
  with r obtain v key p where r': "deleteMax rtb rnd kmin kmax s = Some ((v, key, p), s')"
    by (cases "deleteMax rtb rnd kmin kmax s") auto
  from deleteMax_SomeD [OF inv r'] obtain t0 where
    r'': "deleteMaxFromPartition kmax (s\<lparr>ties := t0\<rparr>) p = Some ((v, key), s')" ..
  let ?s = "s\<lparr>ties := t0\<rparr>"
  from inv have inv0: "kpq_inv ?s" by simp
  note P = deleteMaxFromPartition_SomeD [OF inv0 r'']
  obtain t where t: "deleteMaxFromPartition kmax ?s p = Some ((v, key), t)" and T: "kpq_inv t"
    "length (queues t) = length (queues ?s)"
    "\<And>q. q < length (queues ?s) \<Longrightarrow> q \<noteq> p \<Longrightarrow> entries t q = entries ?s q"
    "\<And>q. q < length (queues ?s) \<Longrightarrow> q \<noteq> p \<Longrightarrow> isEnabled t q \<longleftrightarrow> isEnabled ?s q"
    by (rule deleteMaxFromPartition_effect [OF inv0 P], rule that) assumption+
  from t r'' have "t = s'" by simp
  with T P(1) show ?thesis by (intro that [of p]) simp_all
next
  case (DeleteMaxFromPartition p)
  with r obtain v key where r'': "deleteMaxFromPartition kmax s p = Some ((v, key), s')"
    by (cases "deleteMaxFromPartition kmax s p") auto
  note P = deleteMaxFromPartition_SomeD [OF inv r'']
  obtain t where t: "deleteMaxFromPartition kmax s p = Some ((v, key), t)" and T: "kpq_inv t"
    "length (queues t) = length (queues s)"
    "\<And>q. q < length (queues s) \<Longrightarrow> q \<noteq> p \<Longrightarrow> entries t q = entries s q"
    "\<And>q. q < length (queues s) \<Longrightarrow> q \<noteq> p \<Longrightarrow> isEnabled t q \<longleftrightarrow> isEnabled s q"
    by (rule deleteMaxFromPartition_effect [OF inv P], rule that) assumption+
  from t r'' have "t = s'" by simp
  with T show ?thesis by (intro that [of p] P(1)) simp_all
next
  case (Remove v p)
  with r have r': "remove_pq s v p = Some s'" by simp
  note P = remove_pq_SomeD [OF r']
  obtain t where t: "remove_pq s v p = Some t" and T: "kpq_inv t"
    "length (queues t) = length (queues s)"
    "\<And>q. q < length (queues s) \<Longrightarrow> q \<noteq> p \<Longrightarrow> entries t q = entries s q"
    "\<And>q. q < length (queues s) \<Longrightarrow> q \<noteq> p \<Longrightarrow> isEnabled t q \<longleftrightarrow> isEnabled s q"
    by (rule remove_pq_effect [OF inv P], rule that) assumption+
  from t r' have "t = s'" by simp
  with T show ?thesis by (intro that [of p] P(1)) simp_all
next
  case (EnablePart p)
  with r have r': "enablePart s p = Some s'" by simp
  have p: "p < length (queues s)"
  proof (rule ccontr)
    assume "\<not> p < length (queues s)"
    then have "enablePart s p = None" by (simp add: enablePart_def)
    with r' show False by simp
  qed
  obtain t where t: "enablePart s p = Some t" and T: "kpq_inv t"
    "length (queues t) = length (queues s)"
    "\<And>q. q < length (queues s) \<Longrightarrow> entries t q = entries s q"
    "\<And>q. q < length (queues s) \<Longrightarrow>
        isEnabled t q \<longleftrightarrow> isEnabled s q \<or> (q = p \<and> \<not> isUnused s p)"
    by (rule enablePart_effect [OF inv p], rule that) assumption+
  from t r' have "t = s'" by simp
  with T show ?thesis by (intro that [of p] p) simp_all
next
  case (DisablePart p)
  with r have r': "disablePart s p = Some s'" by simp
  have p: "p < length (queues s)"
  proof (rule ccontr)
    assume "\<not> p < length (queues s)"
    then have "disablePart s p = None" by (simp add: disablePart_def)
    with r' show False by simp
  qed
  obtain t where t: "disablePart s p = Some t" and T: "kpq_inv t"
    "length (queues t) = length (queues s)"
    "\<And>q. q < length (queues s) \<Longrightarrow> entries t q = entries s q"
    "\<And>q. q < length (queues s) \<Longrightarrow> isEnabled t q \<longleftrightarrow> isEnabled s q \<and> q \<noteq> p"
    by (rule disablePart_effect [OF inv p], rule that) assumption+
  from t r' have "t = s'" by simp
  with T show ?thesis by (intro that [of p] p) simp_all
next
  case (UpdateKey v p key)
  with r have r': "updateKey s v p key = Some s'" by simp
  note P = updateKey_SomeD [OF r']
  obtain t where t: "updateKey s v p key = Some t" and T: "kpq_inv t"
    "length (queues t) = length (queues s)"
    "\<And>q. q < length (queues s) \<Longrightarrow> q \<noteq> p \<Longrightarrow> entries t q = entries s q"
    "\<And>q. isEnabled t q \<longleftrightarrow> isEnabled s q"
    by (rule updateKey_effect [OF inv P, of key], rule that) assumption+
  from t r' have "t = s'" by simp
  with T show ?thesis by (intro that [of p] P(1)) simp_all
qed

lemma reachable_inv:
  fixes s :: "('id, 'key::linorder) KWayPriorityQueue"
  assumes "reachable rtb kmin kmax s"
  shows "kpq_inv s"
  using assms
proof (induction rule: reachable.induct)
  case (init k)
  then show ?case by (rule kpq_inv_initialize)
next
  case (step s op s')
  show ?case by (rule apply_op_effect [OF step.IH step.hyps(2)])
qed

lemma num_entries_sum_size_part:
  assumes inv: "kpq_inv s"
  shows "num_entries s = (\<Sum>p<length (queues s). size_part s p)"
proof -
  let ?k = "length (queues s)" and ?n = "num_nonempty_pqs s" and ?m = "mapping s"
  note I = kpq_invD [OF inv]
  note D = mapping_okD [OF I(1)]
  let ?T = "{p. p < ?k \<and> index_of ?m p < ?n}"
  have "num_entries s = (\<Sum>i = 0..<?k. length (queues s ! i))"
    by (simp add: I(6) sum_list_sum_nth)
  also have "\<dots> = (\<Sum>i\<in>{..<?n}. length (queues s ! i))"
  proof (rule sum.mono_neutral_right)
    show "finite {0..<?k}" by simp
    show "{..<?n} \<subseteq> {0..<?k}" using D(2) by auto
    show "\<forall>i\<in>{0..<?k} - {..<?n}. length (queues s ! i) = 0" using I(4) by auto
  qed
  also have "\<dots> = (\<Sum>p\<in>?T. size_part s p)"
  proof (rule sum.reindex_bij_witness [where i = "index_of ?m" and j = "part_at ?m"])
    fix a assume "a \<in> {..<?n}"
    then have a: "a < ?n" by simp
    from D(7) [OF a] show "index_of ?m (part_at ?m a) = a" .
    from D(6) [OF a] D(7) [OF a] a show "part_at ?m a \<in> ?T" by simp
    from D(7) [OF a] a show "size_part s (part_at ?m a) = length (queues s ! a)"
      by (simp add: size_part_def)
  next
    fix b assume "b \<in> ?T"
    then have b: "b < ?k" "index_of ?m b < ?n" by simp_all
    from b(2) D(5) have "index_of ?m b \<noteq> kInvalidIndex" by simp
    from D(10) [OF b(1) this] show "part_at ?m (index_of ?m b) = b" .
    from b(2) show "index_of ?m b \<in> {..<?n}" by simp
  qed
  also have "\<dots> = (\<Sum>p\<in>{..<?k}. size_part s p)"
  proof (rule sum.mono_neutral_left)
    show "finite {..<?k}" by simp
    show "?T \<subseteq> {..<?k}" by auto
    show "\<forall>i\<in>{..<?k} - ?T. size_part s i = 0" by (auto simp: size_part_def)
  qed
  finally show ?thesis .
qed

lemma apply_ops_reachable:
  "reachable rtb kmin kmax s \<Longrightarrow> apply_ops rtb kmin kmax ops s = Some s' \<Longrightarrow> reachable rtb kmin kmax s'"
proof (induction ops arbitrary: s)
  case Nil
  then show ?case by simp
next
  case (Cons op ops)
  from Cons.prems(2) obtain t where t: "apply_op rtb kmin kmax op s = Some t"
    and r: "apply_ops rtb kmin kmax ops t = Some s'"
    by (cases "apply_op rtb kmin kmax op s") simp_all
  from reachable.step [OF Cons.prems(1) t] r show ?case by (rule Cons.IH)
qed

lemmas pq_eval = initialize_def insert_pq_def remove_pq_def enablePart_def disablePart_def
  retirePart_def swap_def markUnused_def isUnused_def isEnabled_def Let_def
  set_part_def set_index_def index_of_def part_at_def push_def heap_remove_def heap_contains_def
  kInvalidIndex_def kInvalidPart_def numeral_2_eq_2 numeral_3_eq_3

lemma ex_one_entry_run:
  "apply_ops rtb kmin kmax [Insert 7 1 5] (initialize 2) = Some ex_one_entry"
  by (simp add: ex_one_entry_def pq_eval)

lemma ex_one_entry_remove:
  "apply_op rtb kmin kmax (Remove 7 1) ex_one_entry = Some (initialize 2)"
  by (simp add: ex_one_entry_def pq_eval)

lemma ex_min_key_run:
  "apply_ops rtb kmin kmax [Insert 0 1 (- 2147483648), EnablePart 1] (initialize 2) = Some ex_min_key"
  by (simp add: ex_min_key_def pq_eval)

lemma ex_two_enabled_run:
  "apply_ops rtb kmin kmax [Insert 0 1 (- 1), Insert 1 0 3, EnablePart 1, EnablePart 0] (initialize 2)
     = Some ex_two_enabled"
  by (simp add: ex_two_enabled_def pq_eval)

lemma ex_three_enabled_run:
  "apply_ops rtb kmin kmax
     [Insert 0 0 1, Insert 1 1 5, Insert 2 2 5, EnablePart 0, EnablePart 1, EnablePart 2]
     (initialize 3) = Some ex_three_enabled"
  by (simp add: ex_three_enabled_def pq_eval)

lemma ex_three_removed_run:
  "apply_op rtb kmin kmax (Remove 0 0) ex_three_enabled = Some ex_three_removed"
  by (simp add: ex_three_enabled_def ex_three_removed_def pq_eval)

subsection \<open>\<open>deleteMax\<close> without random tie breaking, on keys above \<open>MetaKey::min()\<close>\<close>

lemma deleteMax_returns_maximum:
  fixes s :: "('id, 'key::linorder) KWayPriorityQueue"
  assumes re: "reachable False kmin kmax s"
    and ex: "\<exists>p<length (queues s). isEnabled s p \<and> (\<exists>x\<in>set (entries s p). kmin < snd x)"
    and nomax: "\<forall>p<length (queues s). isEnabled s p \<longrightarrow> (\<forall>x\<in>set (entries s p). snd x \<noteq> kmax)"
  shows "\<exists>v key p s'. deleteMax False rnd kmin kmax s = Some ((v, key, p), s') \<and>
           p < length (queues s) \<and> isEnabled s p \<and> (v, key) \<in> set (entries s p) \<and>
           (\<forall>q<length (queues s). isEnabled s q \<longrightarrow> (\<forall>x\<in>set (entries s q). snd x \<le> key)) \<and>
           entries s' p = remove1 (v, key) (entries s p) \<and>
           (\<forall>q<length (queues s). q \<noteq> p \<longrightarrow> entries s' q = entries s q) \<and>
           num_entries s' + 1 = num_entries s"
proof -
  let ?k = "length (queues s)"
  from re have inv: "kpq_inv s" by (rule reachable_inv)
  from ex obtain p0 x where p0: "p0 < ?k" "isEnabled s p0" "x \<in> set (entries s p0)" "kmin < snd x"
    by blast
  from p0(3) have "entries s p0 \<noteq> []" by auto
  then obtain v0 key0 where t0: "heap_top (entries s p0) = Some (v0, key0)"
    by (rule top_Some)
  from top_ge [OF t0 p0(3)] p0(4) have "kmin < key0" by simp
  with p0 t0 have ex': "\<exists>p<?k. isEnabled s p \<and>
              (\<exists>v key. heap_top (entries s p) = Some (v, key) \<and> kmin < key)" by blast
  have nomax': "snd x \<noteq> kmax" if "p < ?k" "isEnabled s p" "x \<in> set (entries s p)" for p x
    using nomax that by blast
  obtain v key p s' where r: "deleteMax False rnd kmin kmax s = Some ((v, key, p), s')"
    and p: "p < ?k" and en: "isEnabled s p" and tp: "heap_top (entries s p) = Some (v, key)"
    and ge: "\<And>q x. q < ?k \<Longrightarrow> isEnabled s q \<Longrightarrow> x \<in> set (entries s q) \<Longrightarrow> snd x \<le> key"
    and inv': "kpq_inv s'" and len: "length (queues s') = ?k"
    and num: "num_entries s' = num_entries s - 1"
    and ep: "entries s' p = remove1 (v, key) (entries s p)"
    and en': "isEnabled s' p \<longleftrightarrow> entries s' p \<noteq> []"
    and fe: "\<And>q. q < ?k \<Longrightarrow> q \<noteq> p \<Longrightarrow> entries s' q = entries s q"
    and fn: "\<And>q. q < ?k \<Longrightarrow> q \<noteq> p \<Longrightarrow> isEnabled s' q \<longleftrightarrow> isEnabled s q"
    by (rule deleteMax_effect [OF inv ex'], (rule nomax'; assumption), rule that) assumption+
  from top_in [OF tp] have mem: "(v, key) \<in> set (entries s p)" .
  then have "0 < length (entries s p)" by auto
  also have "\<dots> = size_part s p" by (simp add: size_part_entries)
  also have "\<dots> \<le> (\<Sum>q<?k. size_part s q)"
    using p by (intro member_le_sum) simp_all
  also have "\<dots> = num_entries s" by (rule num_entries_sum_size_part [OF inv, symmetric])
  finally have "0 < num_entries s" .
  with num have num': "num_entries s' + 1 = num_entries s" by simp
  from r p en mem ge ep fe num' show ?thesis by blast
qed

lemma deleteMax_returns_maximum_example:
  "reachable False (- 2147483648) 2147483647 ex_two_enabled \<and>
   isEnabled ex_two_enabled 0 \<and> isEnabled ex_two_enabled 1 \<and>
   entries ex_two_enabled 0 = [(1, 3)] \<and> entries ex_two_enabled 1 = [(0, - 1)] \<and>
   (\<exists>s'. deleteMax False 0 (- 2147483648) 2147483647 ex_two_enabled = Some ((1, 3, 0), s') \<and>
         entries s' 0 = [] \<and> entries s' 1 = [(0, - 1)])"
proof -
  let ?s = "initialize 2 :: (nat, int) KWayPriorityQueue"
  have "reachable False (- 2147483648) 2147483647 ?s"
    by (rule reachable.init) (simp add: kInvalidPart_def)
  from apply_ops_reachable [OF this ex_two_enabled_run]
  have re: "reachable False (- 2147483648) 2147483647 ex_two_enabled" .
  have f: "length (queues ex_two_enabled) = 2"
    "isEnabled ex_two_enabled 0" "isEnabled ex_two_enabled 1"
    "entries ex_two_enabled 0 = [(1, 3)]" "entries ex_two_enabled 1 = [(0, - 1)]"
    by (simp_all add: ex_two_enabled_def isEnabled_def entries_def index_of_def)
  have lt2: "q < 2 \<longleftrightarrow> q = 0 \<or> q = 1" for q :: nat by auto
  have ex: "\<exists>p<length (queues ex_two_enabled). isEnabled ex_two_enabled p \<and>
      (\<exists>x\<in>set (entries ex_two_enabled p). - 2147483648 < snd x)"
    using f by (intro exI [of _ 0]) simp
  have nomax: "\<forall>p<length (queues ex_two_enabled). isEnabled ex_two_enabled p \<longrightarrow>
      (\<forall>x\<in>set (entries ex_two_enabled p). snd x \<noteq> 2147483647)"
    using f by (auto simp: lt2)
  from deleteMax_returns_maximum [OF re ex nomax] obtain v key p s' where
    r: "deleteMax False 0 (- 2147483648) 2147483647 ex_two_enabled = Some ((v, key, p), s')"
    and p: "p < 2" and mem: "(v, key) \<in> set (entries ex_two_enabled p)"
    and ge: "\<forall>q<2. isEnabled ex_two_enabled q \<longrightarrow> (\<forall>x\<in>set (entries ex_two_enabled q). snd x \<le> key)"
    and ep: "entries s' p = remove1 (v, key) (entries ex_two_enabled p)"
    and fe: "\<forall>q<2. q \<noteq> p \<longrightarrow> entries s' q = entries ex_two_enabled q"
    unfolding f(1) by blast
  from ge f have "3 \<le> key" by (auto simp: lt2)
  with p mem f have eq: "p = 0" "v = 1" "key = 3" by (auto simp: lt2)
  from ep fe f have "entries s' 0 = []" "entries s' 1 = [(0, - 1)]" by (simp_all add: eq)
  with r re f show ?thesis by (simp add: eq)
qed

subsection \<open>The k-way priority queue: \<open>deleteMax\<close>, the invariants and the toggling of parts\<close>

text \<open>
  C2. The claim (in every reachable state with an enabled, non-empty sub-queue \<open>deleteMax\<close>
  removes and returns an entry of largest key among the enabled sub-queues) fails of
  \<open>deleteMax\<close> without random tie breaking, at the state after
  \<open>insert(0, 1, MetaKey::min())\<close> and \<open>enablePart(1)\<close> on a fresh queue over two parts: part 1
  is enabled and holds one entry, but its key is not above the initial
  \<open>max_key = MetaKey::min()\<close> of \<open>maxIndex\<close>, which ends with \<open>max_index = kInvalidIndex\<close>
  against its own \<open>ASSERT\<close>, and \<open>deleteMax\<close> returns no entry. With random tie breaking,
  where \<open>maxIndexRandomTieBreaking\<close> also takes keys equal to \<open>max_key\<close>, the same call
  returns the entry.
\<close>

theorem deleteMax_fails_on_minimal_key:
  "reachable False (- 2147483648) 2147483647 ex_min_key \<and>
   apply_ops False (- 2147483648) 2147483647 [Insert 0 1 (- 2147483648), EnablePart 1] (initialize 2)
     = Some ex_min_key \<and>
   isEnabled ex_min_key 1 \<and> size_part ex_min_key 1 = 1 \<and>
   entries ex_min_key 1 = [(0, - 2147483648)] \<and>
   maxIndex (- 2147483648) ex_min_key = None \<and>
   deleteMax False 0 (- 2147483648) 2147483647 ex_min_key = None \<and>
   map_option fst (deleteMax True 0 (- 2147483648) 2147483647 ex_min_key)
     = Some (0, - 2147483648, 1)"
proof -
  let ?s = "initialize 2 :: (nat, int) KWayPriorityQueue"
  have "reachable False (- 2147483648) 2147483647 ?s"
    by (rule reachable.init) (simp add: kInvalidPart_def)
  from apply_ops_reachable [OF this ex_min_key_run]
  have re: "reachable False (- 2147483648) 2147483647 ex_min_key" .
  have f: "isEnabled ex_min_key 1" "size_part ex_min_key 1 = 1"
    "entries ex_min_key 1 = [(0, - 2147483648)]"
    by (simp_all add: ex_min_key_def isEnabled_def size_part_def entries_def index_of_def)
  have m: "maxIndex (- 2147483648) ex_min_key = None"
    by (simp add: ex_min_key_def maxIndex_def)
  then have d: "deleteMax False 0 (- 2147483648) 2147483647 ex_min_key = None"
    by (simp add: deleteMax_select)
  have t: "maxIndexRandomTieBreaking 0 (- 2147483648) ex_min_key
      = Some (0, ex_min_key\<lparr>ties := [0, 0, 0]\<rparr>)"
    by (simp add: ex_min_key_def maxIndexRandomTieBreaking_def)
  have a: "map_option fst (deleteMaxAt 2147483647 0 (ex_min_key\<lparr>ties := [0, 0, 0]\<rparr>))
      = Some (0, - 2147483648, 1)"
    by (simp add: ex_min_key_def deleteMaxAt_def pop_def retireEnabledPart_def pq_eval)
  from t a have r: "map_option fst (deleteMax True 0 (- 2147483648) 2147483647 ex_min_key)
     = Some (0, - 2147483648, 1)"
    by (simp add: deleteMax_select)
  from re ex_min_key_run f m d r show ?thesis by simp
qed


theorem deleteMax_fails_on_minimal_key_witness:
  "(\<exists>p<length (queues ex_min_key). isEnabled ex_min_key p \<and> 0 < size_part ex_min_key p) \<and>
   (\<nexists>r. deleteMax False 0 (- 2147483648) 2147483647 ex_min_key = Some r) \<and>
   (\<exists>s'. deleteMax True 0 (- 2147483648) 2147483647 ex_min_key = Some ((0, - 2147483648, 1), s'))"
proof -
  from deleteMax_fails_on_minimal_key
  have e: "isEnabled ex_min_key 1" and s: "size_part ex_min_key 1 = 1"
    and d: "deleteMax False 0 (- 2147483648) 2147483647 ex_min_key = None"
    and t: "map_option fst (deleteMax True 0 (- 2147483648) 2147483647 ex_min_key)
              = Some (0, - 2147483648, 1)"
    by simp_all
  have l: "1 < length (queues ex_min_key)" by (simp add: ex_min_key_def)
  from e s l
  have a: "\<exists>p<length (queues ex_min_key). isEnabled ex_min_key p \<and> 0 < size_part ex_min_key p"
    by (intro exI [of _ 1]) simp
  from t have b: "\<exists>s'. deleteMax True 0 (- 2147483648) 2147483647 ex_min_key
      = Some ((0, - 2147483648, 1), s')"
    by (cases "deleteMax True 0 (- 2147483648) 2147483647 ex_min_key") auto
  from a d b show ?thesis by simp
qed
text \<open>
  C3 (as amended). In every reachable state of the queue, with or without random tie
  breaking, and in the state after any successful operation on it (\<open>insert\<close>, \<open>deleteMax\<close>,
  \<open>deleteMaxFromPartition\<close>, \<open>remove\<close>, \<open>enablePart\<close>, \<open>disablePart\<close>, and also
  \<open>updateKey\<close>): (i) every enabled part has a non-empty sub-queue; (ii) the stored number
  of entries is the sum of the sizes of the sub-queues of all parts; (iii) when the
  operation has removed the last entry of the sub-queue of a part, this part is unused and
  not enabled afterwards, and every other part has the entries and the size it had and is
  enabled or unused as it was. The order of the sub-queues in the enabled range is not
  kept, and with it the entry that \<open>deleteMax\<close> returns among entries of the same largest
  key. The number of parts never changes.
\<close>

theorem operations_preserve_invariants:
  fixes s :: "('id, 'key::linorder) KWayPriorityQueue"
  assumes re: "reachable rtb kmin kmax s" and r: "apply_op rtb kmin kmax op s = Some s'"
  shows "length (queues s') = length (queues s) \<and>
         (\<forall>p<length (queues s). isEnabled s p \<longrightarrow> 0 < size_part s p) \<and>
         (\<forall>p<length (queues s). isEnabled s' p \<longrightarrow> 0 < size_part s' p) \<and>
         num_entries s = (\<Sum>p<length (queues s). size_part s p) \<and>
         num_entries s' = (\<Sum>p<length (queues s). size_part s' p) \<and>
         (\<forall>p<length (queues s). 0 < size_part s p \<and> size_part s' p = 0 \<longrightarrow>
            isUnused s' p \<and> \<not> isEnabled s' p \<and>
            (\<forall>q<length (queues s). q \<noteq> p \<longrightarrow>
               entries s' q = entries s q \<and> size_part s' q = size_part s q \<and>
               (isEnabled s' q \<longleftrightarrow> isEnabled s q) \<and> (isUnused s' q \<longleftrightarrow> isUnused s q)))"
proof -
  let ?k = "length (queues s)"
  from re have inv: "kpq_inv s" by (rule reachable_inv)
  obtain p0 where p0: "p0 < ?k" and inv': "kpq_inv s'" and len: "length (queues s') = ?k"
    and fe: "\<And>q. q < ?k \<Longrightarrow> q \<noteq> p0 \<Longrightarrow> entries s' q = entries s q"
    and fn: "\<And>q. q < ?k \<Longrightarrow> q \<noteq> p0 \<Longrightarrow> isEnabled s' q \<longleftrightarrow> isEnabled s q"
    by (rule apply_op_effect [OF inv r], rule that) assumption+
  have i: "\<forall>p<?k. isEnabled s p \<longrightarrow> 0 < size_part s p"
    using kpq_inv_enabled_nonempty [OF inv] by blast
  have i': "\<forall>p<?k. isEnabled s' p \<longrightarrow> 0 < size_part s' p"
    using kpq_inv_enabled_nonempty [OF inv'] len by simp
  have ii: "num_entries s = (\<Sum>p<?k. size_part s p)"
    by (rule num_entries_sum_size_part [OF inv])
  have ii': "num_entries s' = (\<Sum>p<?k. size_part s' p)"
    using num_entries_sum_size_part [OF inv'] len by simp
  have iii: "isUnused s' p \<and> \<not> isEnabled s' p \<and>
            (\<forall>q<?k. q \<noteq> p \<longrightarrow>
               entries s' q = entries s q \<and> size_part s' q = size_part s q \<and>
               (isEnabled s' q \<longleftrightarrow> isEnabled s q) \<and> (isUnused s' q \<longleftrightarrow> isUnused s q))"
    if p: "p < ?k" and a: "0 < size_part s p \<and> size_part s' p = 0" for p
  proof -
    from a have e: "entries s p \<noteq> []" "entries s' p = []" by (simp_all add: size_part_entries)
    have pp: "p = p0"
    proof (rule ccontr)
      assume "p \<noteq> p0"
      from fe [OF p this] e show False by simp
    qed
    from p len have p': "p < length (queues s')" by simp
    from e(2) kpq_inv_unused_iff [OF inv' p'] have u: "isUnused s' p" by simp
    from kpq_inv_unused_not_enabled [OF inv' p' u] have ne: "\<not> isEnabled s' p" .
    have rest: "entries s' q = entries s q \<and> size_part s' q = size_part s q \<and>
               (isEnabled s' q \<longleftrightarrow> isEnabled s q) \<and> (isUnused s' q \<longleftrightarrow> isUnused s q)"
      if q: "q < ?k" and qp: "q \<noteq> p" for q
    proof -
      from qp pp have q0: "q \<noteq> p0" by simp
      from q len have q': "q < length (queues s')" by simp
      from fe [OF q q0] have 1: "entries s' q = entries s q" .
      then have 2: "size_part s' q = size_part s q" by (simp add: size_part_entries)
      from fn [OF q q0] have 3: "isEnabled s' q \<longleftrightarrow> isEnabled s q" .
      from kpq_inv_unused_iff [OF inv' q'] kpq_inv_unused_iff [OF inv q] 1
      have 4: "isUnused s' q \<longleftrightarrow> isUnused s q" by simp
      from 1 2 3 4 show ?thesis by blast
    qed
    from u ne rest show ?thesis by blast
  qed
  from len i i' ii ii' iii show ?thesis by blast
qed

theorem operations_preserve_invariants_witness:
  "reachable False (- 2147483648) 2147483647 ex_one_entry \<and>
   apply_op False (- 2147483648) 2147483647 (Remove 7 1) ex_one_entry = Some (initialize 2) \<and>
   size_part ex_one_entry 1 = 1 \<and>
   size_part (initialize 2 :: (nat, int) KWayPriorityQueue) 1 = 0 \<and>
   num_entries (initialize 2 :: (nat, int) KWayPriorityQueue) = 0 \<and>
   isUnused (initialize 2 :: (nat, int) KWayPriorityQueue) 1 \<and>
   \<not> isEnabled (initialize 2 :: (nat, int) KWayPriorityQueue) 1 \<and>
   entries (initialize 2 :: (nat, int) KWayPriorityQueue) 0 = entries ex_one_entry 0"
proof -
  let ?s = "initialize 2 :: (nat, int) KWayPriorityQueue"
  have "reachable False (- 2147483648) 2147483647 ?s"
    by (rule reachable.init) (simp add: kInvalidPart_def)
  from apply_ops_reachable [OF this ex_one_entry_run]
  have re: "reachable False (- 2147483648) 2147483647 ex_one_entry" .
  have r: "apply_op False (- 2147483648) 2147483647 (Remove 7 1) ex_one_entry = Some ?s"
    by (rule ex_one_entry_remove)
  have sz: "size_part ex_one_entry 1 = 1" "size_part ?s 1 = 0" "num_entries ?s = 0"
    "length (queues ex_one_entry) = 2"
    by (simp_all add: size_part_def ex_one_entry_def initialize_def index_of_def kInvalidIndex_def)
  from operations_preserve_invariants [OF re r]
  have "\<forall>p<length (queues ex_one_entry). 0 < size_part ex_one_entry p \<and> size_part ?s p = 0 \<longrightarrow>
            isUnused ?s p \<and> \<not> isEnabled ?s p \<and>
            (\<forall>q<length (queues ex_one_entry). q \<noteq> p \<longrightarrow> entries ?s q = entries ex_one_entry q)"
    by blast
  then have "0 < size_part ex_one_entry 1 \<and> size_part ?s 1 = 0 \<longrightarrow>
            isUnused ?s 1 \<and> \<not> isEnabled ?s 1 \<and>
            (\<forall>q<length (queues ex_one_entry). q \<noteq> 1 \<longrightarrow> entries ?s q = entries ex_one_entry q)"
    unfolding sz(4) by (rule allE [where x = 1]) simp
  with sz have u: "isUnused ?s 1" "\<not> isEnabled ?s 1"
    and "\<forall>q<2. q \<noteq> 1 \<longrightarrow> entries ?s q = entries ex_one_entry q"
    by simp_all
  then have "entries ?s 0 = entries ex_one_entry 0" by simp
  with re r sz u show ?thesis by simp
qed

text \<open>
  The claim as first stated (no other observable effect) fails: with three enabled parts
  whose only entries have the keys 1, 5 and 5, \<open>deleteMax\<close> returns the entry of part 1;
  after \<open>remove(0, 0)\<close> has taken the last entry of part 0, whose swap moves the sub-queue
  of part 2 to the front, \<open>deleteMax\<close> returns the entry of part 2, while the entries of
  the parts 1 and 2 are as before.
\<close>

theorem remove_last_entry_changes_deleteMax:
  "reachable False (- 2147483648) 2147483647 ex_three_enabled \<and>
   size_part ex_three_enabled 0 = 1 \<and>
   map_option fst (deleteMax False 0 (- 2147483648) 2147483647 ex_three_enabled) = Some (1, 5, 1) \<and>
   remove_pq ex_three_enabled 0 0 = Some ex_three_removed \<and>
   size_part ex_three_removed 0 = 0 \<and>
   entries ex_three_removed 1 = entries ex_three_enabled 1 \<and>
   entries ex_three_removed 2 = entries ex_three_enabled 2 \<and>
   map_option fst (deleteMax False 0 (- 2147483648) 2147483647 ex_three_removed) = Some (2, 5, 2)"
proof -
  let ?s = "initialize 3 :: (nat, int) KWayPriorityQueue"
  have "reachable False (- 2147483648) 2147483647 ?s"
    by (rule reachable.init) (simp add: kInvalidPart_def)
  from apply_ops_reachable [OF this ex_three_enabled_run]
  have re: "reachable False (- 2147483648) 2147483647 ex_three_enabled" .
  have rm: "remove_pq ex_three_enabled 0 0 = Some ex_three_removed"
    using ex_three_removed_run [of False 0 0] by simp
  have f: "size_part ex_three_enabled 0 = 1" "size_part ex_three_removed 0 = 0"
    "entries ex_three_removed 1 = entries ex_three_enabled 1"
    "entries ex_three_removed 2 = entries ex_three_enabled 2"
    by (simp_all add: ex_three_enabled_def ex_three_removed_def size_part_def entries_def
        index_of_def kInvalidIndex_def)
  have m1: "maxIndex (- 2147483648) ex_three_enabled = Some 1"
    by (simp add: ex_three_enabled_def maxIndex_def kInvalidIndex_def upt_rec [of 0]
        numeral_3_eq_3)
  have m2: "maxIndex (- 2147483648) ex_three_removed = Some 0"
    by (simp add: ex_three_removed_def maxIndex_def kInvalidIndex_def upt_rec [of 0]
        numeral_2_eq_2)
  have a1: "map_option fst (deleteMaxAt 2147483647 1 ex_three_enabled) = Some (1, 5, 1)"
    by (simp add: ex_three_enabled_def deleteMaxAt_def pop_def retireEnabledPart_def pq_eval)
  have a2: "map_option fst (deleteMaxAt 2147483647 0 ex_three_removed) = Some (2, 5, 2)"
    by (simp add: ex_three_removed_def deleteMaxAt_def pop_def retireEnabledPart_def pq_eval)
  from m1 a1 have d1: "map_option fst (deleteMax False 0 (- 2147483648) 2147483647 ex_three_enabled)
      = Some (1, 5, 1)" by (simp add: deleteMax_select)
  from m2 a2 have d2: "map_option fst (deleteMax False 0 (- 2147483648) 2147483647 ex_three_removed)
      = Some (2, 5, 2)" by (simp add: deleteMax_select)
  from re rm f d1 d2 show ?thesis by simp
qed

text \<open>
  C10. In a state that satisfies the invariant of the queue, \<open>enablePart(b)\<close> on a part
  \<open>b\<close> whose sub-queue is unused is a no-op (the state is returned as it is, and \<open>b\<close> is
  not enabled); \<open>disablePart(b)\<close> on a part that is not enabled is a no-op; and after any
  sequence of \<open>enablePart\<close> and \<open>disablePart\<close> calls on parts of the queue, an unused part
  \<open>b\<close> is still unused, not enabled and empty, and the number of entries is the same.
\<close>

theorem toggling_keeps_unused_part_disabled:
  assumes inv: "kpq_inv s" and b: "b < length (queues s)"
  shows "(isUnused s b \<longrightarrow> enablePart s b = Some s \<and> \<not> isEnabled s b) \<and>
         (\<not> isEnabled s b \<longrightarrow> disablePart s b = Some s) \<and>
         (isUnused s b \<and> (\<forall>t\<in>set ts. toggle_part t < length (queues s)) \<longrightarrow>
            (\<exists>s'. apply_toggles ts s = Some s' \<and> isUnused s' b \<and> \<not> isEnabled s' b \<and>
                  size_part s' b = 0 \<and> num_entries s' = num_entries s))"
proof (intro conjI impI)
  assume u: "isUnused s b"
  with b show "enablePart s b = Some s" by (simp add: enablePart_def)
  from kpq_inv_unused_not_enabled [OF inv b u] show "\<not> isEnabled s b" .
next
  assume "\<not> isEnabled s b"
  with b show "disablePart s b = Some s" by (simp add: disablePart_def)
next
  assume a: "isUnused s b \<and> (\<forall>t\<in>set ts. toggle_part t < length (queues s))"
  then have u: "isUnused s b" and ts: "\<forall>t\<in>set ts. toggle_part t < length (queues s)" by simp_all
  from apply_toggles_effect [OF inv ts] obtain s' where
    r: "apply_toggles ts s = Some s'" and inv': "kpq_inv s'" and
    len: "length (queues s') = length (queues s)" and num: "num_entries s' = num_entries s" and
    ent: "\<forall>q. q < length (queues s) \<longrightarrow> entries s' q = entries s q"
    by blast
  from b len have b': "b < length (queues s')" by simp
  from u kpq_inv_unused_iff [OF inv b] ent b have e: "entries s' b = []" by simp
  with kpq_inv_unused_iff [OF inv' b'] have u': "isUnused s' b" by simp
  from kpq_inv_unused_not_enabled [OF inv' b' u'] e u' r num
  show "\<exists>s'. apply_toggles ts s = Some s' \<and> isUnused s' b \<and> \<not> isEnabled s' b \<and>
                  size_part s' b = 0 \<and> num_entries s' = num_entries s"
    by (simp add: size_part_entries)
qed

theorem toggling_keeps_unused_part_disabled_witness:
  "kpq_inv (initialize 2 :: (nat, int) KWayPriorityQueue) \<and>
   (1::nat) < length (queues (initialize 2 :: (nat, int) KWayPriorityQueue)) \<and>
   isUnused (initialize 2 :: (nat, int) KWayPriorityQueue) 1 \<and>
   enablePart (initialize 2 :: (nat, int) KWayPriorityQueue) 1 = Some (initialize 2) \<and>
   apply_toggles [Enable 1, Disable 0, Enable 1] (initialize 2 :: (nat, int) KWayPriorityQueue)
     = Some (initialize 2)"
proof -
  let ?s = "initialize 2 :: (nat, int) KWayPriorityQueue"
  have inv: "kpq_inv ?s" by (rule kpq_inv_initialize) (simp add: kInvalidPart_def)
  have b: "1 < length (queues ?s)" by (simp add: initialize_def)
  have u: "isUnused ?s 1" by (simp add: initialize_def isUnused_def index_of_def)
  have t: "apply_toggles [Enable 1, Disable 0, Enable 1] ?s = Some ?s"
    by (simp add: initialize_def enablePart_def disablePart_def isUnused_def isEnabled_def
        index_of_def kInvalidIndex_def)
  from toggling_keeps_unused_part_disabled [OF inv b, of "[Enable 1, Disable 0, Enable 1]"] u
  have "enablePart ?s 1 = Some ?s" by simp
  with inv b u t show ?thesis by simp
qed

section \<open>The 2-way FM refiner: deltas and recomputed gains\<close>

lemma computeGain_sum_edgeGain:
  assumes u: "u < length (node_part h)" and b: "node_part h ! u = Some b"
  shows "computeGain h u = Some (\<Sum>e\<leftarrow>[0..<numEdges h]. edgeGain h e u)"
proof -
  let ?h' = "h\<lparr>node_part := (node_part h)[u := Some (1 - b)]\<rparr>"
  have n: "numEdges ?h' = numEdges h" by (simp add: numEdges_def)
  have "computeGain h u = Some (cut_objective h - cut_objective ?h')"
    using u b by (simp add: computeGain_def changeNodePart_pins_def)
  also have "cut_objective h - cut_objective ?h' = (\<Sum>e\<leftarrow>[0..<numEdges h]. edgeGain h e u)"
    unfolding cut_objective_def n sum_list_subtractf [symmetric]
    by (rule arg_cong [where f = sum_list], rule map_cong) (simp_all add: edgeGain_def b)
  finally show ?thesis .
qed

lemma count_update:
  assumes "distinct xs" "x \<in> set xs" "x < length np"
  shows "length (filter (\<lambda>y. np[x := Some c] ! y = Some b) xs) + (if np ! x = Some b then 1 else 0)
       = length (filter (\<lambda>y. np ! y = Some b) xs) + (if c = b then 1 else 0)"
  using assms
proof (induction xs)
  case Nil
  then show ?case by simp
next
  case (Cons a xs)
  show ?case
  proof (cases "a = x")
    case True
    with Cons.prems have "x \<notin> set xs" by simp
    then have "\<forall>y\<in>set xs. np[x := Some c] ! y = np ! y"
      by (metis nth_list_update_neq)
    then have f: "filter (\<lambda>y. np[x := Some c] ! y = Some b) xs = filter (\<lambda>y. np ! y = Some b) xs"
      by (intro filter_cong) simp_all
    show ?thesis unfolding True filter.simps f using Cons.prems(3) by auto
  next
    case False
    with Cons.prems have "distinct xs" "x \<in> set xs" by auto
    from Cons.IH [OF this Cons.prems(3)]
    have IH: "length (filter (\<lambda>y. np[x := Some c] ! y = Some b) xs) + (if np ! x = Some b then 1 else 0)
       = length (filter (\<lambda>y. np ! y = Some b) xs) + (if c = b then 1 else 0)" .
    from False have a: "np[x := Some c] ! a = np ! a" by (simp add: nth_list_update_neq)
    show ?thesis unfolding filter.simps a using IH by (cases "np ! a = Some b") simp_all
  qed
qed

lemma connectivity_counts:
  "connectivity h e =
     (if 0 < pinCountInPart h e 0 then 1 else 0) + (if 0 < pinCountInPart h e 1 then 1 else 0)"
  by (simp add: connectivity_def numeral_2_eq_2 upt_rec [of 0])

lemma pinCountInPart_move:
  assumes "distinct (pins h e)" "x \<in> set (pins h e)" "x < length (node_part h)"
  shows "pinCountInPart (h\<lparr>node_part := (node_part h)[x := Some c]\<rparr>) e b
           + (if node_part h ! x = Some b then 1 else 0)
       = pinCountInPart h e b + (if c = b then 1 else 0)"
proof -
  have p: "pins (h\<lparr>node_part := (node_part h)[x := Some c]\<rparr>) e = pins h e"
    by (simp add: pins_def)
  from count_update [OF assms, of c b] show ?thesis
    by (simp add: pinCountInPart_def p)
qed

lemma deltaGain_edgeGain:
  assumes d: "distinct (pins h e)" and v: "v \<in> set (pins h e)" and u: "u \<in> set (pins h e)"
    and uv: "u \<noteq> v" and vl: "v < length (node_part h)" and ul: "u < length (node_part h)"
    and pv: "node_part h ! v = Some from" and f2: "from < 2" and to: "to = 1 - from"
    and pu: "node_part h ! u = Some b" and b2: "b < 2"
  shows "edgeGain (h\<lparr>node_part := (node_part h)[v := Some to]\<rparr>) e u
       = edgeGain h e u + deltaGain (h\<lparr>node_part := (node_part h)[v := Some to]\<rparr>) e u from to"
proof -
  let ?np = "node_part h"
  define h2 where "h2 = h\<lparr>node_part := ?np[v := Some to]\<rparr>"
  define hu where "hu = h\<lparr>node_part := ?np[u := Some (1 - b)]\<rparr>"
  define h2u where "h2u = h2\<lparr>node_part := (node_part h2)[u := Some (1 - b)]\<rparr>"
  have pins2: "pins h2 e = pins h e" "pins hu e = pins h e" "pins h2u e = pins h e"
    by (simp_all add: h2_def hu_def h2u_def pins_def)
  have np2: "node_part h2 ! u = Some b" "u < length (node_part h2)"
    using uv pu ul by (simp_all add: h2_def)
  have B: "pinCountInPart h2 e c + (if Some from = Some c then 1 else 0)
       = pinCountInPart h e c + (if to = c then 1 else 0)" for c
    using pinCountInPart_move [OF d v vl, of to c] pv by (simp add: h2_def)
  have C: "pinCountInPart hu e c + (if Some b = Some c then 1 else 0)
       = pinCountInPart h e c + (if 1 - b = c then 1 else 0)" for c
    using pinCountInPart_move [OF d u ul, of "1 - b" c] pu by (simp add: hu_def)
  have D: "pinCountInPart h2u e c + (if Some b = Some c then 1 else 0)
       = pinCountInPart h2 e c + (if 1 - b = c then 1 else 0)" for c
    using pinCountInPart_move [of h2 e u "1 - b" c] d u np2 pins2 by (simp add: h2u_def)
  have mem: "0 < pinCountInPart h e from" "0 < pinCountInPart h e b"
    "b = from \<Longrightarrow> 1 < pinCountInPart h e from"
  proof -
    let ?f = "filter (\<lambda>y. ?np ! y = Some from) (pins h e)"
    from v pv have vf: "v \<in> set ?f" by simp
    then show "0 < pinCountInPart h e from" unfolding pinCountInPart_def by (rule length_pos_if_in_set)
    from u pu have "u \<in> set (filter (\<lambda>y. ?np ! y = Some b) (pins h e))" by simp
    then show "0 < pinCountInPart h e b" unfolding pinCountInPart_def by (rule length_pos_if_in_set)
    assume "b = from"
    with u pu have uf: "u \<in> set ?f" by simp
    from d have "distinct ?f" by simp
    then have "card (set ?f) = length ?f" by (rule distinct_card)
    moreover from uf vf uv have "{u, v} \<subseteq> set ?f" "card {u, v} = 2" by auto
    then have "2 \<le> card (set ?f)" by (metis card_mono List.finite_set)
    ultimately show "1 < pinCountInPart h e from" by (simp add: pinCountInPart_def)
  qed
  have w: "edge_weights h2 ! e = edge_weights h ! e" by (simp add: h2_def)
  have eg: "edgeGain h e u = edge_weights h ! e *
      ((if 1 < connectivity h e then 1 else 0) - (if 1 < connectivity hu e then 1 else 0))"
    by (simp add: edgeGain_def pu hu_def)
  have eg2: "edgeGain h2 e u = edge_weights h ! e *
      ((if 1 < connectivity h2 e then 1 else 0) - (if 1 < connectivity h2u e then 1 else 0))"
    by (simp add: edgeGain_def np2 h2u_def w)
  have dg: "deltaGain h2 e u from to =
     (if b = from
      then (if pinCountInPart h2 e from = 1 then edge_weights h ! e else 0) +
           (if pinCountInPart h2 e to = 1 then edge_weights h ! e else 0)
      else - (if pinCountInPart h2 e from = 0 then edge_weights h ! e else 0) -
           (if pinCountInPart h2 e to = 2 then edge_weights h ! e else 0))"
    using np2 f2 b2 to by (auto simp: deltaGain_def Let_def w)
  from f2 b2 consider "from = 0" "b = 0" | "from = 0" "b = 1" | "from = 1" "b = 0" | "from = 1" "b = 1"
    by (cases "from = 0"; cases "b = 0") auto
  then have "edgeGain h2 e u = edgeGain h e u + deltaGain h2 e u from to"
  proof cases
    case 1
    with to have t: "to = 1" by simp
    from B [of 0] B [of 1] C [of 0] C [of 1] D [of 0] D [of 1] mem 1 t
    show ?thesis unfolding eg eg2 dg connectivity_counts
      by (auto simp: algebra_simps split: if_splits)
  next
    case 2
    with to have t: "to = 1" by simp
    from B [of 0] B [of 1] C [of 0] C [of 1] D [of 0] D [of 1] mem 2 t
    show ?thesis unfolding eg eg2 dg connectivity_counts
      by (auto simp: algebra_simps split: if_splits)
  next
    case 3
    with to have t: "to = 0" by simp
    from B [of 0] B [of 1] C [of 0] C [of 1] D [of 0] D [of 1] mem 3 t
    show ?thesis unfolding eg eg2 dg connectivity_counts
      by (auto simp: algebra_simps split: if_splits)
  next
    case 4
    with to have t: "to = 0" by simp
    from B [of 0] B [of 1] C [of 0] C [of 1] D [of 0] D [of 1] mem 4 t
    show ?thesis unfolding eg eg2 dg connectivity_counts
      by (auto simp: algebra_simps split: if_splits)
  qed
  then show ?thesis by (simp add: h2_def)
qed

lemma pinCountInPart_other:
  assumes "x \<notin> set (pins h e)"
  shows "pinCountInPart (h\<lparr>node_part := (node_part h)[x := c]\<rparr>) e b = pinCountInPart h e b"
proof -
  have p: "pins (h\<lparr>node_part := (node_part h)[x := c]\<rparr>) e = pins h e"
    by (simp add: pins_def)
  from assms have "\<forall>y\<in>set (pins h e). (node_part h)[x := c] ! y = node_part h ! y"
    by (metis nth_list_update_neq)
  then have "filter (\<lambda>y. (node_part h)[x := c] ! y = Some b) (pins h e)
           = filter (\<lambda>y. node_part h ! y = Some b) (pins h e)"
    by (intro filter_cong) simp_all
  then show ?thesis by (simp add: pinCountInPart_def p)
qed

lemma edgeGain_not_pin:
  assumes "u \<notin> set (pins h e)"
  shows "edgeGain h e u = 0"
  using pinCountInPart_other [OF assms]
  by (simp add: edgeGain_def connectivity_counts split: option.splits)

lemma edgeGain_other_edge:
  assumes v: "v \<notin> set (pins h e)" and uv: "u \<noteq> v"
  shows "edgeGain (h\<lparr>node_part := (node_part h)[v := c]\<rparr>) e u = edgeGain h e u"
proof -
  let ?h2 = "h\<lparr>node_part := (node_part h)[v := c]\<rparr>"
  have nu: "node_part ?h2 ! u = node_part h ! u" using uv by simp
  have c1: "connectivity ?h2 e = connectivity h e"
    using pinCountInPart_other [OF v] by (simp add: connectivity_counts)
  have c2: "connectivity (h\<lparr>node_part := (node_part h)[v := c, u := d]\<rparr>) e
          = connectivity (h\<lparr>node_part := (node_part h)[u := d]\<rparr>) e" for d
  proof -
    let ?hu = "h\<lparr>node_part := (node_part h)[u := d]\<rparr>"
    have "h\<lparr>node_part := (node_part h)[v := c, u := d]\<rparr> = ?hu\<lparr>node_part := (node_part ?hu)[v := c]\<rparr>"
      using uv by (simp add: list_update_swap)
    moreover have "v \<notin> set (pins ?hu e)" using v by (simp add: pins_def)
    ultimately show ?thesis
      using pinCountInPart_other [of v ?hu e c] by (simp add: connectivity_counts)
  qed
  show ?thesis unfolding edgeGain_def nu c1 by (simp add: c2 split: option.splits)
qed

lemma computeGain_after_move:
  assumes wf: "\<forall>e<numEdges h. distinct (pins h e) \<and> (\<forall>x\<in>set (pins h e). x < length (node_part h))"
    and uv: "u \<noteq> v" and vl: "v < length (node_part h)" and ul: "u < length (node_part h)"
    and pv: "node_part h ! v = Some from" and f2: "from < 2" and to: "to = 1 - from"
    and pu: "node_part h ! u = Some b" and b2: "b < 2"
    and g: "computeGain h u = Some gain"
  shows "computeGain (h\<lparr>node_part := (node_part h)[v := Some to]\<rparr>) u =
           Some (gain + (\<Sum>e\<leftarrow>incidentEdges h v.
                           if u \<in> set (pins h e)
                           then deltaGain (h\<lparr>node_part := (node_part h)[v := Some to]\<rparr>) e u from to
                           else 0))"
proof -
  let ?h2 = "h\<lparr>node_part := (node_part h)[v := Some to]\<rparr>"
  let ?d = "\<lambda>e. if u \<in> set (pins h e) then deltaGain ?h2 e u from to else 0"
  have n2: "numEdges ?h2 = numEdges h" by (simp add: numEdges_def)
  have np2: "u < length (node_part ?h2)" "node_part ?h2 ! u = Some b"
    using ul pu uv by simp_all
  from g computeGain_sum_edgeGain [OF ul pu]
  have gain: "gain = (\<Sum>e\<leftarrow>[0..<numEdges h]. edgeGain h e u)" by simp
  have step: "edgeGain ?h2 e u = edgeGain h e u + (if v \<in> set (pins h e) then ?d e else 0)"
    if e: "e < numEdges h" for e
  proof (cases "v \<in> set (pins h e)")
    case False
    from edgeGain_other_edge [OF False uv] False show ?thesis by simp
  next
    case True
    show ?thesis
    proof (cases "u \<in> set (pins h e)")
      case u: True
      from wf e have d: "distinct (pins h e)" by simp
      from deltaGain_edgeGain [OF d True u uv vl ul pv f2 to pu b2] True u show ?thesis by simp
    next
      case u: False
      then have "u \<notin> set (pins ?h2 e)" by (simp add: pins_def)
      from edgeGain_not_pin [OF this] edgeGain_not_pin [OF u] True u show ?thesis by simp
    qed
  qed
  have "(\<Sum>e\<leftarrow>[0..<numEdges h]. edgeGain ?h2 e u)
      = (\<Sum>e\<leftarrow>[0..<numEdges h]. edgeGain h e u + (if v \<in> set (pins h e) then ?d e else 0))"
    by (rule arg_cong [where f = sum_list], rule map_cong) (simp_all add: step)
  also have "\<dots> = gain + (\<Sum>e\<leftarrow>[0..<numEdges h]. if v \<in> set (pins h e) then ?d e else 0)"
    by (simp add: sum_list_addf gain)
  also have "(\<Sum>e\<leftarrow>[0..<numEdges h]. if v \<in> set (pins h e) then ?d e else 0)
      = (\<Sum>e\<leftarrow>incidentEdges h v. ?d e)"
    unfolding incidentEdges_def by (simp add: sum_list_map_filter')
  finally show ?thesis using computeGain_sum_edgeGain [OF np2] by (simp add: n2)
qed

section \<open>The 2-way FM refiner: the size-2 scenario\<close>

lemmas fm_eval = ex_size2_hypergraph_def make_hypergraph_def setNodePart_def computeGain_def
  changeNodePart_pins_def cut_objective_def connectivity_def pinCountInPart_def pins_def
  numEdges_def incidentEdges_def

lemma ex_size2_gains:
  "computeGain ex_size2_hypergraph 0 = Some (- 1)" "computeGain ex_size2_hypergraph 1 = Some (- 1)"
  "computeGain ex_size2_hypergraph (Suc 0) = Some (- 1)"
  by (simp_all add: fm_eval numeral_2_eq_2 upt_rec [of 0])

lemma ex_size2_before_eq:
  "ex_size2_before =
     Some \<lparr>fm_hg = ex_size2_hypergraph,
           fm_pq = \<lparr>queues = [[(0, - 1), (1, - 1)], []],
                    mapping = [\<lparr>part = 1, index = kInvalidIndex\<rparr>,
                               \<lparr>part = kInvalidPart, index = 0\<rparr>,
                               \<lparr>part = kInvalidPart, index = kInvalidIndex\<rparr>],
                    num_entries = 2, num_nonempty_pqs = 1, num_enabled_pqs = 1,
                    ties = [0, 0]\<rparr>,
           fm_marked = [False, False]\<rparr>"
  by (simp add: ex_size2_before_def ex_size2_gains pq_eval)

lemma ex_size2_after_eq:
  "ex_size2_after =
     Some \<lparr>fm_hg = ex_size2_hypergraph\<lparr>node_part := [Some 0, Some 1]\<rparr>,
           fm_pq = \<lparr>queues = [[(0, 1), (1, - 1)], []],
                    mapping = [\<lparr>part = 1, index = kInvalidIndex\<rparr>,
                               \<lparr>part = kInvalidPart, index = 0\<rparr>,
                               \<lparr>part = kInvalidPart, index = kInvalidIndex\<rparr>],
                    num_entries = 2, num_nonempty_pqs = 1, num_enabled_pqs = 1,
                    ties = [0, 0]\<rparr>,
           fm_marked = [False, True]\<rparr>"
  by (simp add: ex_size2_after_def ex_size2_before_eq updateNeighbours_def updatePin_def
      deltaGain_def contains_pq_def key_pq_def getKey_def updateKey_def heap_updateKey_def
      heap_contains_def index_of_def kInvalidIndex_def kInvalidPart_def Let_def
      ex_size2_hypergraph_def make_hypergraph_def setNodePart_def changeNodePart_pins_def
      pinCountInPart_def pins_def numEdges_def incidentEdges_def numeral_2_eq_2 upt_rec [of 0])

text \<open>
  C9. On the hypergraph with two vertices in block 0 and the single hyperedge \<open>{0, 1}\<close>,
  the computed gain of moving either vertex to block 1 is \<open>-1\<close>, and these are the keys of
  the two vertices for block 1 in the queue; after vertex 1 has been moved to block 1 and
  marked, the update of the neighbours sets the key of vertex 0 for block 1 to \<open>+1\<close> and
  leaves the key of vertex 1 at \<open>-1\<close>.
\<close>

theorem size2_gain_update:
  "computeGain ex_size2_hypergraph 0 = Some (- 1) \<and>
   computeGain ex_size2_hypergraph 1 = Some (- 1) \<and>
   (\<exists>r r'. ex_size2_before = Some r \<and>
      key_pq (fm_pq r) 0 1 = Some (- 1) \<and> key_pq (fm_pq r) 1 1 = Some (- 1) \<and>
      ex_size2_after = Some r' \<and>
      key_pq (fm_pq r') 0 1 = Some 1 \<and> key_pq (fm_pq r') 1 1 = Some (- 1))"
  by (simp add: ex_size2_gains ex_size2_before_eq ex_size2_after_eq key_pq_def getKey_def
      index_of_def)

end
